theory Spec2Isabelle
  imports Main "HOL-Library.Word"
begin

section \<open>Strings of the source language\<close>

text \<open>
  A string of the source is a sequence of 16-bit code units; every length, index, trim,
  substring test and regular expression of \<^verbatim>\<open>LinkConverter.tsx\<close> works on code units.
\<close>

type_synonym unit16 = "16 word"
type_synonym jsstring = "unit16 list"

definition js :: "string \<Rightarrow> jsstring" where
  "js s = map (\<lambda>c. of_nat (of_char c)) s"

text \<open>
  \<^verbatim>\<open>String.prototype.trim\<close> removes WhiteSpace and LineTerminator code units from both
  ends: TAB, LF, VT, FF, CR, SP, NBSP, U+1680, U+2000..U+200A, U+2028, U+2029, U+202F,
  U+205F, U+3000 and U+FEFF.
\<close>

definition isWhiteSpace :: "unit16 \<Rightarrow> bool" where
  "isWhiteSpace c =
     ((0x09 \<le> c \<and> c \<le> 0x0D) \<or> c = 0x20 \<or> c = 0xA0 \<or> c = 0x1680 \<or>
      (0x2000 \<le> c \<and> c \<le> 0x200A) \<or> c = 0x2028 \<or> c = 0x2029 \<or> c = 0x202F \<or>
      c = 0x205F \<or> c = 0x3000 \<or> c = 0xFEFF)"

definition trim :: "jsstring \<Rightarrow> jsstring" where
  "trim s = rev (dropWhile isWhiteSpace (rev (dropWhile isWhiteSpace s)))"

text \<open>\<^verbatim>\<open>s.includes(x)\<close>: \<open>x\<close> occurs in \<open>s\<close> as a contiguous run of code units.\<close>

fun startsWith :: "jsstring \<Rightarrow> jsstring \<Rightarrow> bool" where
  "startsWith s [] = True"
| "startsWith [] (x # xs) = False"
| "startsWith (c # s) (x # xs) = (c = x \<and> startsWith s xs)"

fun js_includes :: "jsstring \<Rightarrow> jsstring \<Rightarrow> bool" where
  "js_includes [] x = (x = [])"
| "js_includes (c # s) x = (startsWith (c # s) x \<or> js_includes s x)"

text \<open>
  \<^verbatim>\<open>String.prototype.toLowerCase\<close> applies the Unicode case mapping of the runtime, a
  table that is not part of the repository. The functions that call it take it as the
  parameter \<open>toLowerCase\<close>. What is known of it on ASCII text is \<open>lowersAscii\<close>: a string
  of code units below 0x80 is mapped unit by unit, \<open>A\<close>..\<open>Z\<close> to \<open>a\<close>..\<open>z\<close>.
\<close>

definition asciiLowerUnit :: "unit16 \<Rightarrow> unit16" where
  "asciiLowerUnit c = (if 0x41 \<le> c \<and> c \<le> 0x5A then c + 0x20 else c)"

definition asciiLower :: "jsstring \<Rightarrow> jsstring" where
  "asciiLower s = map asciiLowerUnit s"

definition isAscii :: "unit16 \<Rightarrow> bool" where
  "isAscii c = (c < 0x80)"

definition lowersAscii :: "(jsstring \<Rightarrow> jsstring) \<Rightarrow> bool" where
  "lowersAscii toLowerCase = (\<forall>s. list_all isAscii s \<longrightarrow> toLowerCase s = asciiLower s)"

section \<open>The six regular expressions of extractGoogleFileId\<close>

text \<open>
  Each of the six patterns is a fixed sequence of character classes followed by the
  capturing group \<^verbatim>\<open>([a-zA-Z0-9_-]+)\<close>. A pattern is the list of its classes, a class the
  list of the code units it accepts.
\<close>

type_synonym pattern = "unit16 list list"

definition isIdChar :: "unit16 \<Rightarrow> bool" where
  "isIdChar c =
     ((0x61 \<le> c \<and> c \<le> 0x7A) \<or> (0x41 \<le> c \<and> c \<le> 0x5A) \<or> (0x30 \<le> c \<and> c \<le> 0x39) \<or>
      c = 0x5F \<or> c = 0x2D)"

definition lit :: "string \<Rightarrow> pattern" where
  "lit s = map (\<lambda>c. [c]) (js s)"

text \<open>The classes of a pattern read at the head of a string; the result is what follows.\<close>

fun matchClasses :: "pattern \<Rightarrow> jsstring \<Rightarrow> jsstring option" where
  "matchClasses [] s = Some s"
| "matchClasses (cls # p) [] = None"
| "matchClasses (cls # p) (c # s) = (if c \<in> set cls then matchClasses p s else None)"

text \<open>A match starting at the head: the classes, then the greedy non-empty group.\<close>

definition matchHere :: "pattern \<Rightarrow> jsstring \<Rightarrow> jsstring option" where
  "matchHere p s =
     (case matchClasses p s of
        None \<Rightarrow> None
      | Some rest \<Rightarrow> (let g = takeWhile isIdChar rest in if g = [] then None else Some g))"

text \<open>
  \<^verbatim>\<open>url.match(p)\<close> for a pattern without the global flag: the match at the leftmost
  position that has one; the result is group 1 of that match.
\<close>

fun regexMatch :: "pattern \<Rightarrow> jsstring \<Rightarrow> jsstring option" where
  "regexMatch p [] = matchHere p []"
| "regexMatch p (c # s) =
     (case matchHere p (c # s) of Some g \<Rightarrow> Some g | None \<Rightarrow> regexMatch p s)"

definition patterns :: "pattern list" where
  "patterns =
     [lit ''/file/d/'',
      lit ''/presentation/d/'',
      lit ''/document/d/'',
      lit ''/spreadsheets/d/'',
      js ''?&'' # lit ''id='',
      lit ''/uc?id='']"

text \<open>
  The loop \<^verbatim>\<open>for (const p of patterns) { const m = url.match(p); if (m?.[1]) return m[1]; }\<close>:
  a group is returned when it is truthy, that is, a non-empty string.
\<close>

fun firstGroup :: "pattern list \<Rightarrow> jsstring \<Rightarrow> jsstring option" where
  "firstGroup [] url = None"
| "firstGroup (p # ps) url =
     (case regexMatch p url of
        Some g \<Rightarrow> (if g \<noteq> [] then Some g else firstGroup ps url)
      | None \<Rightarrow> firstGroup ps url)"

definition extractGoogleFileId :: "jsstring \<Rightarrow> jsstring option" where
  "extractGoogleFileId input =
     (let url = trim input in if url = [] then None else firstGroup patterns url)"

definition isProbablyGoogleLink :: "(jsstring \<Rightarrow> jsstring) \<Rightarrow> jsstring \<Rightarrow> bool" where
  "isProbablyGoogleLink toLowerCase input =
     (let s = toLowerCase (trim input)
      in js_includes s (js ''drive.google.com'') \<or> js_includes s (js ''docs.google.com''))"

section \<open>encodeURIComponent\<close>

text \<open>
  The built-in \<^verbatim>\<open>encodeURIComponent\<close> (ECMAScript \<open>Encode\<close> with the unreserved set
  \<^verbatim>\<open>A-Z a-z 0-9 - _ . ! ~ * ' ( )\<close>): an unreserved code unit is copied; any other code
  point is written as the octets of its UTF-8 form, each as \<^verbatim>\<open>%XX\<close> in upper-case
  hexadecimal. A surrogate code unit that is not part of a pair raises \<^verbatim>\<open>URIError\<close>.
\<close>

datatype js_error = URIError

definition isUnescaped :: "unit16 \<Rightarrow> bool" where
  "isUnescaped c =
     ((0x61 \<le> c \<and> c \<le> 0x7A) \<or> (0x41 \<le> c \<and> c \<le> 0x5A) \<or> (0x30 \<le> c \<and> c \<le> 0x39) \<or>
      c = 0x2D \<or> c = 0x5F \<or> c = 0x2E \<or> c = 0x21 \<or> c = 0x7E \<or> c = 0x2A \<or> c = 0x27 \<or>
      c = 0x28 \<or> c = 0x29)"

definition isLeadingSurrogate :: "unit16 \<Rightarrow> bool" where
  "isLeadingSurrogate c = (0xD800 \<le> c \<and> c \<le> 0xDBFF)"

definition isTrailingSurrogate :: "unit16 \<Rightarrow> bool" where
  "isTrailingSurrogate c = (0xDC00 \<le> c \<and> c \<le> 0xDFFF)"

definition surrogatePairToCodePoint :: "unit16 \<Rightarrow> unit16 \<Rightarrow> nat" where
  "surrogatePairToCodePoint lead trail =
     (unat lead - 0xD800) * 0x400 + (unat trail - 0xDC00) + 0x10000"

definition utf8Encode :: "nat \<Rightarrow> nat list" where
  "utf8Encode cp =
     (if cp < 0x80 then [cp]
      else if cp < 0x800 then [0xC0 + cp div 0x40, 0x80 + cp mod 0x40]
      else if cp < 0x10000 then
        [0xE0 + cp div 0x1000, 0x80 + cp div 0x40 mod 0x40, 0x80 + cp mod 0x40]
      else
        [0xF0 + cp div 0x40000, 0x80 + cp div 0x1000 mod 0x40, 0x80 + cp div 0x40 mod 0x40,
         0x80 + cp mod 0x40])"

definition hexDigit :: "nat \<Rightarrow> unit16" where
  "hexDigit n = (if n < 10 then of_nat (0x30 + n) else of_nat (0x37 + n))"

definition percentOctet :: "nat \<Rightarrow> jsstring" where
  "percentOctet b = [0x25, hexDigit (b div 16), hexDigit (b mod 16)]"

definition escapeCodePoint :: "nat \<Rightarrow> jsstring" where
  "escapeCodePoint cp = concat (map percentOctet (utf8Encode cp))"

definition appendTo :: "jsstring \<Rightarrow> js_error + jsstring \<Rightarrow> js_error + jsstring" where
  "appendTo r x = (case x of Inl e \<Rightarrow> Inl e | Inr t \<Rightarrow> Inr (r @ t))"

fun encodeURIComponent :: "jsstring \<Rightarrow> js_error + jsstring" where
  "encodeURIComponent [] = Inr []"
| "encodeURIComponent (c # s) =
     (if isUnescaped c then appendTo [c] (encodeURIComponent s)
      else if isTrailingSurrogate c then Inl URIError
      else if isLeadingSurrogate c then
        (case s of
           [] \<Rightarrow> Inl URIError
         | d # s' \<Rightarrow>
             if isTrailingSurrogate d
             then appendTo (escapeCodePoint (surrogatePairToCodePoint c d)) (encodeURIComponent s')
             else Inl URIError)
      else appendTo (escapeCodePoint (unat c)) (encodeURIComponent s))"

section \<open>URL builders\<close>

definition buildDriveDirectDownload :: "jsstring \<Rightarrow> jsstring" where
  "buildDriveDirectDownload fileId = js ''https://drive.google.com/uc?export=download&id='' @ fileId"

definition buildDriveDirectView :: "jsstring \<Rightarrow> jsstring" where
  "buildDriveDirectView fileId = js ''https://drive.google.com/uc?export=view&id='' @ fileId"

definition buildSlidesExportPptx :: "jsstring \<Rightarrow> jsstring" where
  "buildSlidesExportPptx fileId =
     js ''https://docs.google.com/presentation/d/'' @ fileId @ js ''/export/pptx''"

definition buildSlidesEmbed :: "jsstring \<Rightarrow> jsstring" where
  "buildSlidesEmbed fileId =
     js ''https://docs.google.com/presentation/d/'' @ fileId @
     js ''/embed?start=false&loop=false&delayms=3000''"

definition buildDocsViewer :: "jsstring \<Rightarrow> js_error + jsstring" where
  "buildDocsViewer urlToFile =
     appendTo (js ''https://docs.google.com/gview?embedded=true&url='')
       (encodeURIComponent urlToFile)"

definition buildMicrosoftOfficeViewer :: "jsstring \<Rightarrow> js_error + jsstring" where
  "buildMicrosoftOfficeViewer urlToFile =
     appendTo (js ''https://view.officeapps.live.com/op/embed.aspx?src='')
       (encodeURIComponent urlToFile)"

section \<open>convertLink\<close>

datatype FileType = Ppt | Pdf | Image | Video | Audio

text \<open>The field \<^verbatim>\<open>notes\<close> is \<open>notes'\<close> here: \<open>notes\<close> is a keyword.\<close>

record ConvertResult =
  fileId :: "jsstring option"
  exportUrl :: "jsstring option"
  embedUrl :: "jsstring option"
  previewUrl :: "jsstring option"
  notes' :: "jsstring list option"
  error :: "jsstring option"

text \<open>The object literal with no property set; an absent property is \<open>None\<close>.\<close>

definition noResult :: ConvertResult where
  "noResult =
     \<lparr>fileId = None, exportUrl = None, embedUrl = None, previewUrl = None, notes' = None,
      error = None\<rparr>"

text \<open>Truthiness of a string that may be null or undefined: present and non-empty.\<close>

fun truthy :: "jsstring option \<Rightarrow> bool" where
  "truthy None = False"
| "truthy (Some s) = (s \<noteq> [])"

definition pasteFirst :: jsstring where
  "pasteFirst = js ''Paste a link first.''"

definition noFileId :: jsstring where
  "noFileId =
     js ''This looks like a Google link, but I couldn't extract the file ID. Please paste a full Drive/Docs link.''"

text \<open>The branch \<^verbatim>\<open>if (!google)\<close>: the trimmed input is the export URL as it is.\<close>

definition convertDirect :: "jsstring \<Rightarrow> FileType \<Rightarrow> js_error + ConvertResult" where
  "convertDirect direct type =
     (if type = Ppt then
        (case buildMicrosoftOfficeViewer direct of
           Inl e \<Rightarrow> Inl e
         | Inr v \<Rightarrow>
             Inr (noResult\<lparr>exportUrl := Some direct, previewUrl := Some v,
                   notes' := Some [js ''This is not a Google Drive link. Using it as-is.'',
                                  js ''For PPT preview, the URL must be publicly accessible.'']\<rparr>))
      else if type = Pdf then
        (case buildDocsViewer direct of
           Inl e \<Rightarrow> Inl e
         | Inr v \<Rightarrow>
             Inr (noResult\<lparr>exportUrl := Some direct, previewUrl := Some v,
                   notes' := Some [js ''This is not a Google Drive link. Using it as-is.'',
                                  js ''If the PDF doesn't render, ensure the link is public and allows direct access.'']\<rparr>))
      else
        Inr (noResult\<lparr>exportUrl := Some direct, previewUrl := Some direct,
              notes' := Some [js ''This is not a Google Drive link. Using it as-is.'']\<rparr>))"

text \<open>
  The \<^verbatim>\<open>switch (type)\<close> of the Google branch. \<open>FileType\<close> is closed, so the
  \<^verbatim>\<open>default\<close> case of the source has no input.
\<close>

fun convertGoogle ::
  "(jsstring \<Rightarrow> jsstring) \<Rightarrow> jsstring \<Rightarrow> jsstring \<Rightarrow> FileType \<Rightarrow> js_error + ConvertResult" where
  "convertGoogle toLowerCase raw ident Ppt =
     (let exportUrl = buildSlidesExportPptx ident;
          embedUrl = buildSlidesEmbed ident
      in Inr (noResult\<lparr>fileId := Some ident, exportUrl := Some exportUrl,
               embedUrl := Some embedUrl, previewUrl := Some embedUrl,
               notes' := Some [js ''Export URL downloads as PPTX.'',
                              js ''Preview uses Google Slides embed.'',
                              js ''If you want PPT-style preview, switch to Microsoft viewer (provided below).'']\<rparr>))"
| "convertGoogle toLowerCase raw ident Pdf =
     (let lower = toLowerCase raw;
          exportUrl =
            (if js_includes lower (js ''docs.google.com/presentation'')
             then js ''https://docs.google.com/presentation/d/'' @ ident @ js ''/export/pdf''
             else if js_includes lower (js ''docs.google.com/document'')
             then js ''https://docs.google.com/document/d/'' @ ident @ js ''/export?format=pdf''
             else if js_includes lower (js ''docs.google.com/spreadsheets'')
             then buildDriveDirectDownload ident
             else buildDriveDirectDownload ident)
      in case buildDocsViewer exportUrl of
           Inl e \<Rightarrow> Inl e
         | Inr v \<Rightarrow>
             Inr (noResult\<lparr>fileId := Some ident, exportUrl := Some exportUrl,
                   previewUrl := Some v,
                   notes' := Some [js ''Preview uses Google Docs Viewer.'',
                                  js ''Make sure the file is shared publicly (Anyone with the link '' @
                                  [0x2192] @ js '' Viewer).'']\<rparr>))"
| "convertGoogle toLowerCase raw ident Image =
     (let exportUrl = buildDriveDirectView ident
      in Inr (noResult\<lparr>fileId := Some ident, exportUrl := Some exportUrl,
               previewUrl := Some exportUrl,
               notes' := Some [js ''This works best when the Drive file is actually an image.'',
                              js ''If it fails, your file may not be an image or it may not be public.'']\<rparr>))"
| "convertGoogle toLowerCase raw ident Video =
     (let exportUrl = buildDriveDirectDownload ident
      in Inr (noResult\<lparr>fileId := Some ident, exportUrl := Some exportUrl,
               previewUrl := Some exportUrl,
               notes' := Some [js ''For Drive videos, direct playback depends on CORS and file permissions.'',
                              js ''If it doesn't play, try hosting on a CDN or use a streaming server.'']\<rparr>))"
| "convertGoogle toLowerCase raw ident Audio =
     (let exportUrl = buildDriveDirectDownload ident
      in Inr (noResult\<lparr>fileId := Some ident, exportUrl := Some exportUrl,
               previewUrl := Some exportUrl,
               notes' := Some [js ''For Drive audio, direct playback depends on permissions and browser support.'']\<rparr>))"

text \<open>
  \<^verbatim>\<open>const id = fileId!\<close> is reached only after \<^verbatim>\<open>if (google && !fileId) return ...\<close>
  and \<^verbatim>\<open>if (!google) { ... return ... }\<close>, so \<open>fileId\<close> is a string there; the \<open>None\<close>
  case of the last \<open>case\<close> below has no input.
\<close>

definition convertLink ::
  "(jsstring \<Rightarrow> jsstring) \<Rightarrow> jsstring \<Rightarrow> FileType \<Rightarrow> js_error + ConvertResult" where
  "convertLink toLowerCase input type =
     (let raw = trim input in
      if raw = [] then Inr (noResult\<lparr>error := Some pasteFirst\<rparr>)
      else
        let google = isProbablyGoogleLink toLowerCase raw;
            fileId = (if google then extractGoogleFileId raw else None)
        in if google \<and> \<not> truthy fileId then Inr (noResult\<lparr>error := Some noFileId\<rparr>)
           else if \<not> google then convertDirect raw type
           else (case fileId of
                   Some ident \<Rightarrow> convertGoogle toLowerCase raw ident type
                 | None \<Rightarrow> Inr (noResult\<lparr>error := Some noFileId\<rparr>)))"

section \<open>The result shown by DriveLinkConverterPage\<close>

text \<open>
  The \<^verbatim>\<open>useMemo\<close> callback of the page: the result of \<open>convertLink\<close>, with the preview
  replaced by the Microsoft viewer when the type is \<open>ppt\<close>, the toggle is on and the
  result has a truthy \<open>exportUrl\<close>.
\<close>

definition pageResult ::
  "(jsstring \<Rightarrow> jsstring) \<Rightarrow> jsstring \<Rightarrow> FileType \<Rightarrow> bool \<Rightarrow> js_error + ConvertResult" where
  "pageResult toLowerCase input type forceMsViewer =
     (case convertLink toLowerCase input type of
        Inl e \<Rightarrow> Inl e
      | Inr r \<Rightarrow>
          (if type = Ppt \<and> forceMsViewer \<and> truthy (exportUrl r) then
             (case buildMicrosoftOfficeViewer (case exportUrl r of Some u \<Rightarrow> u | None \<Rightarrow> []) of
                Inl e \<Rightarrow> Inl e
              | Inr v \<Rightarrow>
                  Inr (r\<lparr>previewUrl := Some v,
                        notes' := Some ((case notes' r of Some ns \<Rightarrow> ns | None \<Rightarrow> []) @
                                       [js ''Microsoft viewer enabled for preview.''])\<rparr>))
           else Inr r))"

section \<open>Well-formed strings\<close>

text \<open>
  \<^verbatim>\<open>String.prototype.isWellFormed\<close>: no surrogate code unit stands outside a pair of a
  leading one followed by a trailing one.
\<close>

fun isWellFormed :: "jsstring \<Rightarrow> bool" where
  "isWellFormed [] = True"
| "isWellFormed (c # s) =
     (if isTrailingSurrogate c then False
      else if isLeadingSurrogate c then
        (case s of [] \<Rightarrow> False | d # s' \<Rightarrow> isTrailingSurrogate d \<and> isWellFormed s')
      else isWellFormed s)"

section \<open>What a match of a pattern is\<close>

text \<open>
  The meaning of \<^verbatim>\<open>/classes([a-zA-Z0-9_-]+)/\<close> on a string \<open>s\<close>, stated without the
  search: there is a match at index \<open>i\<close> with group \<open>g\<close> when \<open>s\<close> from \<open>i\<close> on reads one
  code unit of each class in turn, then \<open>g\<close>, a non-empty run of identifier characters
  that the next code unit (if any) does not continue. \<^verbatim>\<open>match\<close> returns the match at
  the least index that has one.
\<close>

definition matchesAt :: "pattern \<Rightarrow> jsstring \<Rightarrow> nat \<Rightarrow> jsstring \<Rightarrow> bool" where
  "matchesAt p s i g =
     (i \<le> length s \<and>
      (\<exists>l rest. drop i s = l @ g @ rest \<and> list_all2 (\<lambda>c cls. c \<in> set cls) l p \<and>
         g \<noteq> [] \<and> list_all isIdChar g \<and> (rest = [] \<or> \<not> isIdChar (hd rest))))"

definition hasMatch :: "pattern \<Rightarrow> jsstring \<Rightarrow> bool" where
  "hasMatch p s = (\<exists>i g. matchesAt p s i g)"

definition leftmostMatch :: "pattern \<Rightarrow> jsstring \<Rightarrow> jsstring \<Rightarrow> bool" where
  "leftmostMatch p s g = (\<exists>i. matchesAt p s i g \<and> (\<forall>j<i. \<forall>h. \<not> matchesAt p s j h))"

text \<open>
  The extractor with the sixth pattern \<^verbatim>\<open>/\/uc\?id=([a-zA-Z0-9_-]+)/\<close> removed: the same
  function over the first five patterns.
\<close>

definition extractWithoutUc :: "jsstring \<Rightarrow> jsstring option" where
  "extractWithoutUc input =
     (let url = trim input in if url = [] then None else firstGroup (butlast patterns) url)"

section \<open>Reading a query parameter back\<close>

text \<open>
  What a viewer service does with the URL it is given: it takes the value of a named
  parameter of the query string and percent-decodes it. The decoding is that of the
  built-in \<^verbatim>\<open>decodeURIComponent\<close>: \<^verbatim>\<open>%XX\<close> is one octet, any other code unit stands
  for itself, and a run of octets must be the UTF-8 form of one code point, which is
  written in UTF-16. \<open>None\<close> is the \<^verbatim>\<open>URIError\<close> of a malformed sequence.
\<close>

definition hexValue :: "unit16 \<Rightarrow> nat option" where
  "hexValue c =
     (if 0x30 \<le> c \<and> c \<le> 0x39 then Some (unat c - 0x30)
      else if 0x41 \<le> c \<and> c \<le> 0x46 then Some (unat c - 0x37)
      else if 0x61 \<le> c \<and> c \<le> 0x66 then Some (unat c - 0x57)
      else None)"

datatype item = Unit unit16 | Octet nat

fun unescape :: "jsstring \<Rightarrow> item list option" where
  "unescape [] = Some []"
| "unescape (c # s) =
     (if c = 0x25 then
        (case s of
           a # b # s' \<Rightarrow>
             (case hexValue a of
                None \<Rightarrow> None
              | Some h \<Rightarrow>
                  (case hexValue b of
                     None \<Rightarrow> None
                   | Some l \<Rightarrow> map_option ((#) (Octet (16 * h + l))) (unescape s')))
         | _ \<Rightarrow> None)
      else map_option ((#) (Unit c)) (unescape s))"

definition isContinuation :: "nat \<Rightarrow> bool" where
  "isContinuation b = (0x80 \<le> b \<and> b < 0xC0)"

definition utf16Encode :: "nat \<Rightarrow> jsstring" where
  "utf16Encode cp =
     (if cp < 0x10000 then [of_nat cp]
      else [of_nat (0xD800 + (cp - 0x10000) div 0x400),
            of_nat (0xDC00 + (cp - 0x10000) mod 0x400)])"

fun utf8Decode :: "item list \<Rightarrow> jsstring option" where
  "utf8Decode [] = Some []"
| "utf8Decode (Unit c # r) = map_option ((#) c) (utf8Decode r)"
| "utf8Decode (Octet b # r) =
     (if b < 0x80 then map_option ((#) (of_nat b)) (utf8Decode r)
      else if 0xC0 \<le> b \<and> b < 0xE0 then
        (case r of
           Octet b1 # r' \<Rightarrow>
             (let cp = (b - 0xC0) * 0x40 + (b1 - 0x80)
              in if isContinuation b1 \<and> 0x80 \<le> cp
                 then map_option ((@) (utf16Encode cp)) (utf8Decode r')
                 else None)
         | _ \<Rightarrow> None)
      else if 0xE0 \<le> b \<and> b < 0xF0 then
        (case r of
           Octet b1 # Octet b2 # r' \<Rightarrow>
             (let cp = (b - 0xE0) * 0x1000 + (b1 - 0x80) * 0x40 + (b2 - 0x80)
              in if isContinuation b1 \<and> isContinuation b2 \<and> 0x800 \<le> cp \<and>
                    \<not> (0xD800 \<le> cp \<and> cp \<le> 0xDFFF)
                 then map_option ((@) (utf16Encode cp)) (utf8Decode r')
                 else None)
         | _ \<Rightarrow> None)
      else if 0xF0 \<le> b \<and> b < 0xF8 then
        (case r of
           Octet b1 # Octet b2 # Octet b3 # r' \<Rightarrow>
             (let cp = (b - 0xF0) * 0x40000 + (b1 - 0x80) * 0x1000 + (b2 - 0x80) * 0x40 +
                       (b3 - 0x80)
              in if isContinuation b1 \<and> isContinuation b2 \<and> isContinuation b3 \<and>
                    0x10000 \<le> cp \<and> cp \<le> 0x10FFFF
                 then map_option ((@) (utf16Encode cp)) (utf8Decode r')
                 else None)
         | _ \<Rightarrow> None)
      else None)"

definition decodeURIComponent :: "jsstring \<Rightarrow> jsstring option" where
  "decodeURIComponent s = (case unescape s of None \<Rightarrow> None | Some items \<Rightarrow> utf8Decode items)"

text \<open>
  The query string of a URL is what stands between the first \<^verbatim>\<open>?\<close> and the fragment; its
  parameters are separated by \<^verbatim>\<open>&\<close>; the value of the parameter \<open>name\<close> is what follows
  \<^verbatim>\<open>name=\<close> in the first parameter that starts so.
\<close>

fun splitOn :: "unit16 \<Rightarrow> jsstring \<Rightarrow> jsstring list" where
  "splitOn d [] = [[]]"
| "splitOn d (c # s) =
     (if c = d then [] # splitOn d s
      else (case splitOn d s of x # xs \<Rightarrow> (c # x) # xs | [] \<Rightarrow> [[c]]))"

definition queryOf :: "jsstring \<Rightarrow> jsstring" where
  "queryOf url = drop 1 (dropWhile (\<lambda>c. c \<noteq> 0x3F) (takeWhile (\<lambda>c. c \<noteq> 0x23) url))"

definition rawParam :: "jsstring \<Rightarrow> jsstring \<Rightarrow> jsstring option" where
  "rawParam name url =
     (case filter (\<lambda>kv. startsWith kv (name @ [0x3D])) (splitOn 0x26 (queryOf url)) of
        [] \<Rightarrow> None
      | kv # _ \<Rightarrow> Some (drop (length name + 1) kv))"

definition queryParam :: "jsstring \<Rightarrow> jsstring \<Rightarrow> jsstring option" where
  "queryParam name url =
     (case rawParam name url of None \<Rightarrow> None | Some v \<Rightarrow> decodeURIComponent v)"

text \<open>The code units that end a parameter value or a query string do not occur.\<close>

definition isEncoded :: "unit16 \<Rightarrow> bool" where
  "isEncoded c = (c \<noteq> 0x23 \<and> c \<noteq> 0x26 \<and> c \<noteq> 0x3D \<and> c \<noteq> 0x3F)"

section \<open>Basic facts\<close>

subsection \<open>trim\<close>

lemma trim_idem: "trim (trim s) = trim s"
proof -
  define a where "a = dropWhile isWhiteSpace s"
  define b where "b = rev (dropWhile isWhiteSpace (rev a))"
  have "rev a = takeWhile isWhiteSpace (rev a) @ rev b"
    by (simp add: b_def)
  then have "rev (rev a) = rev (takeWhile isWhiteSpace (rev a) @ rev b)"
    by simp
  then have ab: "a = b @ rev (takeWhile isWhiteSpace (rev a))"
    by simp
  have "dropWhile isWhiteSpace b = b"
  proof (cases b)
    case Nil
    then show ?thesis by simp
  next
    case (Cons x xs)
    have "hd (b @ rev (takeWhile isWhiteSpace (rev a))) = x"
      by (simp add: Cons)
    with ab have hd: "hd a = x" by simp
    from ab Cons have ne: "a \<noteq> []" by auto
    then have "\<not> isWhiteSpace (hd a)"
      unfolding a_def by (rule hd_dropWhile)
    with hd show ?thesis
      using Cons by simp
  qed
  then show ?thesis
    by (simp add: trim_def a_def b_def)
qed

lemma extract_trim: "extractGoogleFileId (trim input) = extractGoogleFileId input"
  by (simp add: extractGoogleFileId_def trim_idem)

lemma google_trim:
  "isProbablyGoogleLink toLowerCase (trim input) = isProbablyGoogleLink toLowerCase input"
  by (simp add: isProbablyGoogleLink_def trim_idem)

subsection \<open>The captured group\<close>

lemma matchHere_group: "matchHere p s = Some g \<Longrightarrow> g \<noteq> [] \<and> list_all isIdChar g"
  by (auto simp: matchHere_def Let_def list_all_iff split: option.splits if_splits
      dest: set_takeWhileD)

lemma regexMatch_group: "regexMatch p s = Some g \<Longrightarrow> g \<noteq> [] \<and> list_all isIdChar g"
  by (induction s) (auto split: option.splits dest: matchHere_group)

lemma firstGroup_group: "firstGroup ps s = Some g \<Longrightarrow> g \<noteq> [] \<and> list_all isIdChar g"
  by (induction ps) (auto split: option.splits if_splits dest: regexMatch_group)

lemma extract_group:
  "extractGoogleFileId input = Some g \<Longrightarrow> g \<noteq> [] \<and> list_all isIdChar g \<and> trim input \<noteq> []"
  by (auto simp: extractGoogleFileId_def Let_def split: if_splits dest: firstGroup_group)

subsection \<open>When encodeURIComponent returns\<close>

lemma isUnescaped_not_surrogate:
  "isUnescaped c \<Longrightarrow> \<not> isTrailingSurrogate c \<and> \<not> isLeadingSurrogate c"
  by (auto simp: isUnescaped_def isTrailingSurrogate_def isLeadingSurrogate_def
      word_le_nat_alt word_less_nat_alt)

lemma appendTo_Inr: "(\<exists>e. appendTo r x = Inr e) = (\<exists>e. x = Inr e)"
  by (cases x) (simp_all add: appendTo_def)

lemma encode_wellFormed: "(\<exists>e. encodeURIComponent s = Inr e) = isWellFormed s"
proof (induction s rule: encodeURIComponent.induct)
  case 1
  show ?case by simp
next
  case (2 c s)
  show ?case
  proof (cases "isUnescaped c")
    case True
    with 2 isUnescaped_not_surrogate[of c] show ?thesis
      by (simp add: appendTo_Inr)
  next
    case nu: False
    show ?thesis
    proof (cases "isTrailingSurrogate c")
      case True
      with nu show ?thesis by simp
    next
      case nt: False
      show ?thesis
      proof (cases "isLeadingSurrogate c")
        case False
        with nu nt 2 show ?thesis by (simp add: appendTo_Inr)
      next
        case True
        with nu nt 2 show ?thesis
          by (cases s) (simp_all add: appendTo_Inr)
      qed
    qed
  qed
qed

lemma encode_throws: "(encodeURIComponent s = Inl URIError) = (\<not> isWellFormed s)"
proof -
  have "(\<exists>e. encodeURIComponent s = Inr e) \<or> encodeURIComponent s = Inl URIError"
    by (cases "encodeURIComponent s") (auto intro: js_error.exhaust)
  moreover have "\<not> ((\<exists>e. encodeURIComponent s = Inr e) \<and> encodeURIComponent s = Inl URIError)"
    by auto
  ultimately show ?thesis
    using encode_wellFormed[of s] by blast
qed

lemma isAscii_not_surrogate:
  "isAscii c \<Longrightarrow> \<not> isTrailingSurrogate c \<and> \<not> isLeadingSurrogate c"
  by (auto simp: isAscii_def isTrailingSurrogate_def isLeadingSurrogate_def
      word_le_nat_alt word_less_nat_alt)

lemma isIdChar_isAscii: "isIdChar c \<Longrightarrow> isAscii c"
  by (auto simp: isAscii_def isIdChar_def word_le_nat_alt word_less_nat_alt)

lemma ascii_wellFormed_append: "list_all isAscii a \<Longrightarrow> isWellFormed (a @ b) = isWellFormed b"
  by (induction a) (auto simp: isAscii_not_surrogate)

lemma ascii_wellFormed: "list_all isAscii a \<Longrightarrow> isWellFormed a"
  using ascii_wellFormed_append[of a "[]"] by simp

lemma group_ascii: "list_all isIdChar g \<Longrightarrow> list_all isAscii g"
  by (induction g) (auto simp: isIdChar_isAscii)

subsection \<open>The branches of convertLink\<close>

lemma convertLink_empty:
  "trim input = [] \<Longrightarrow> convertLink toLowerCase input type = Inr (noResult\<lparr>error := Some pasteFirst\<rparr>)"
  by (simp add: convertLink_def)

lemma convertLink_noFileId:
  "trim input \<noteq> [] \<Longrightarrow> isProbablyGoogleLink toLowerCase input \<Longrightarrow>
   extractGoogleFileId input = None \<Longrightarrow>
   convertLink toLowerCase input type = Inr (noResult\<lparr>error := Some noFileId\<rparr>)"
  by (simp add: convertLink_def Let_def google_trim extract_trim)

lemma convertLink_direct:
  "trim input \<noteq> [] \<Longrightarrow> \<not> isProbablyGoogleLink toLowerCase input \<Longrightarrow>
   convertLink toLowerCase input type = convertDirect (trim input) type"
  by (simp add: convertLink_def Let_def google_trim)

lemma convertLink_google:
  "isProbablyGoogleLink toLowerCase input \<Longrightarrow> extractGoogleFileId input = Some ident \<Longrightarrow>
   convertLink toLowerCase input type = convertGoogle toLowerCase (trim input) ident type"
  using extract_group[of input ident]
  by (simp add: convertLink_def Let_def google_trim extract_trim)

subsection \<open>Evaluation on literals\<close>

lemmas evalStrings = js_def lit_def patterns_def extractGoogleFileId_def trim_def
  isWhiteSpace_def isIdChar_def matchHere_def isProbablyGoogleLink_def asciiLower_def
  asciiLowerUnit_def

lemma lowersAscii_asciiLower: "lowersAscii asciiLower"
  by (simp add: lowersAscii_def)

subsection \<open>When the viewer builders return\<close>

lemma viewer_returns:
  "(\<exists>v. buildDocsViewer u = Inr v) = isWellFormed u"
  "(\<exists>v. buildMicrosoftOfficeViewer u = Inr v) = isWellFormed u"
  by (simp_all add: buildDocsViewer_def buildMicrosoftOfficeViewer_def appendTo_Inr encode_wellFormed)

lemma js_error_eq: "(a :: js_error) = b"
  by (cases a; cases b) simp

lemma docsViewer_throws: "(buildDocsViewer u = Inl e) = (\<not> isWellFormed u)"
proof (cases "buildDocsViewer u")
  case (Inl a)
  then show ?thesis
    using viewer_returns(1)[of u] js_error_eq[of a e] by simp
next
  case (Inr b)
  then show ?thesis
    using viewer_returns(1)[of u] by simp
qed

lemma officeViewer_throws: "(buildMicrosoftOfficeViewer u = Inl e) = (\<not> isWellFormed u)"
proof (cases "buildMicrosoftOfficeViewer u")
  case (Inl a)
  then show ?thesis
    using viewer_returns(2)[of u] js_error_eq[of a e] by simp
next
  case (Inr b)
  then show ?thesis
    using viewer_returns(2)[of u] by simp
qed

lemma google_urls_wellFormed:
  assumes "list_all isIdChar g"
  shows "isWellFormed (buildDriveDirectDownload g)"
    and "isWellFormed (buildSlidesExportPptx g)"
    and "isWellFormed (js ''https://docs.google.com/presentation/d/'' @ g @ js ''/export/pdf'')"
    and "isWellFormed (js ''https://docs.google.com/document/d/'' @ g @ js ''/export?format=pdf'')"
proof -
  have g: "list_all isAscii g"
    using assms by (rule group_ascii)
  show "isWellFormed (buildDriveDirectDownload g)"
    unfolding buildDriveDirectDownload_def
    by (rule ascii_wellFormed) (simp add: g, simp add: js_def isAscii_def)
  show "isWellFormed (buildSlidesExportPptx g)"
    unfolding buildSlidesExportPptx_def
    by (rule ascii_wellFormed) (simp add: g, simp add: js_def isAscii_def)
  show "isWellFormed (js ''https://docs.google.com/presentation/d/'' @ g @ js ''/export/pdf'')"
    by (rule ascii_wellFormed) (simp add: g, simp add: js_def isAscii_def)
  show "isWellFormed (js ''https://docs.google.com/document/d/'' @ g @ js ''/export?format=pdf'')"
    by (rule ascii_wellFormed) (simp add: g, simp add: js_def isAscii_def)
qed

subsection \<open>The results of the two branches\<close>

lemma convertDirect_result:
  assumes "convertDirect direct type = Inr r"
  shows "exportUrl r = Some direct \<and> error r = None \<and> fileId r = None \<and> embedUrl r = None \<and>
         (\<exists>ns. notes' r = Some ns) \<and>
         (type = Ppt \<longrightarrow> buildMicrosoftOfficeViewer direct = Inr (case previewUrl r of Some v \<Rightarrow> v | None \<Rightarrow> [])) \<and>
         (\<exists>v. previewUrl r = Some v)"
  using assms
  by (cases type) (auto simp: convertDirect_def noResult_def split: sum.splits)

lemma convertGoogle_result:
  assumes "convertGoogle toLowerCase raw ident type = Inr r"
  shows "fileId r = Some ident \<and> error r = None \<and> (\<exists>u. exportUrl r = Some u) \<and>
         (\<exists>ns. notes' r = Some ns) \<and> (\<exists>v. previewUrl r = Some v) \<and>
         (type = Ppt \<longrightarrow> exportUrl r = Some (buildSlidesExportPptx ident))"
  using assms
  by (cases type) (auto simp: noResult_def Let_def split: sum.splits)

lemmas evalEncode = buildMicrosoftOfficeViewer_def buildDocsViewer_def appendTo_def
  isUnescaped_def isTrailingSurrogate_def isLeadingSurrogate_def escapeCodePoint_def
  utf8Encode_def percentOctet_def hexDigit_def surrogatePairToCodePoint_def

subsection \<open>The search finds the leftmost match\<close>

lemma matchClasses_iff:
  "(matchClasses p t = Some r) = (\<exists>l. t = l @ r \<and> list_all2 (\<lambda>c cls. c \<in> set cls) l p)"
proof (induction p arbitrary: t)
  case Nil
  show ?case by auto
next
  case (Cons cls p)
  show ?case
  proof (cases t)
    case Nil
    then show ?thesis by (auto simp: list_all2_Cons2)
  next
    case (Cons c t')
    show ?thesis
      unfolding Cons
      by (auto simp: Cons.IH list_all2_Cons2 Cons_eq_append_conv)
  qed
qed

lemma takeWhile_run:
  "(takeWhile P r = g) = (\<exists>rest. r = g @ rest \<and> list_all P g \<and> (rest = [] \<or> \<not> P (hd rest)))"
proof
  assume h: "takeWhile P r = g"
  have "r = g @ dropWhile P r"
    using takeWhile_dropWhile_id[of P r] h by simp
  moreover have "list_all P g"
    using h by (auto simp: list_all_iff dest: set_takeWhileD)
  moreover have "dropWhile P r = [] \<or> \<not> P (hd (dropWhile P r))"
    using hd_dropWhile[of P r] by blast
  ultimately show "\<exists>rest. r = g @ rest \<and> list_all P g \<and> (rest = [] \<or> \<not> P (hd rest))"
    by blast
next
  assume "\<exists>rest. r = g @ rest \<and> list_all P g \<and> (rest = [] \<or> \<not> P (hd rest))"
  then obtain rest where r: "r = g @ rest" and g: "list_all P g"
    and e: "rest = [] \<or> \<not> P (hd rest)"
    by blast
  from e have "takeWhile P rest = []"
    by (cases rest) auto
  with g show "takeWhile P r = g"
    unfolding r by (simp add: list_all_iff)
qed

lemma matchHere_iff:
  "(matchHere p t = Some g) =
     (\<exists>l rest. t = l @ g @ rest \<and> list_all2 (\<lambda>c cls. c \<in> set cls) l p \<and>
        g \<noteq> [] \<and> list_all isIdChar g \<and> (rest = [] \<or> \<not> isIdChar (hd rest)))"
proof -
  have "(matchHere p t = Some g) =
          (\<exists>r. matchClasses p t = Some r \<and> takeWhile isIdChar r = g \<and> g \<noteq> [])"
    by (auto simp: matchHere_def Let_def split: option.splits)
  also have "\<dots> = (\<exists>r l. t = l @ r \<and> list_all2 (\<lambda>c cls. c \<in> set cls) l p \<and>
                      (\<exists>rest. r = g @ rest \<and> list_all isIdChar g \<and>
                         (rest = [] \<or> \<not> isIdChar (hd rest))) \<and> g \<noteq> [])"
    unfolding matchClasses_iff takeWhile_run by blast
  also have "\<dots> = (\<exists>l rest. t = l @ g @ rest \<and> list_all2 (\<lambda>c cls. c \<in> set cls) l p \<and>
        g \<noteq> [] \<and> list_all isIdChar g \<and> (rest = [] \<or> \<not> isIdChar (hd rest)))"
    by blast
  finally show ?thesis .
qed

lemma matchesAt_iff: "matchesAt p s i g = (i \<le> length s \<and> matchHere p (drop i s) = Some g)"
  by (simp add: matchesAt_def matchHere_iff)

lemma ex_le_Suc: "(\<exists>i\<le>Suc n. Q i) = (Q 0 \<or> (\<exists>i\<le>n. Q (Suc i)))"
proof
  assume "\<exists>i\<le>Suc n. Q i"
  then obtain i where "i \<le> Suc n" "Q i" by blast
  then show "Q 0 \<or> (\<exists>i\<le>n. Q (Suc i))"
    by (cases i) auto
next
  assume "Q 0 \<or> (\<exists>i\<le>n. Q (Suc i))"
  then show "\<exists>i\<le>Suc n. Q i" by auto
qed

lemma all_le_Suc: "(\<forall>i\<le>Suc n. Q i) = (Q 0 \<and> (\<forall>i\<le>n. Q (Suc i)))"
  using ex_le_Suc[of n "\<lambda>i. \<not> Q i"] by blast

lemma regexMatch_None_iff:
  "(regexMatch p s = None) = (\<forall>i\<le>length s. matchHere p (drop i s) = None)"
proof (induction s)
  case Nil
  show ?case by simp
next
  case (Cons c s)
  show ?case
    by (cases "matchHere p (c # s)") (simp_all add: all_le_Suc Cons.IH)
qed

lemma regexMatch_Some_iff:
  "(regexMatch p s = Some g) =
     (\<exists>i\<le>length s. matchHere p (drop i s) = Some g \<and> (\<forall>j<i. matchHere p (drop j s) = None))"
proof (induction s)
  case Nil
  show ?case by simp
next
  case (Cons c s)
  show ?case
    by (cases "matchHere p (c # s)") (simp_all add: ex_le_Suc All_less_Suc2 Cons.IH)
qed

lemma regexMatch_hasMatch: "(regexMatch p s = None) = (\<not> hasMatch p s)"
  by (auto simp: regexMatch_None_iff hasMatch_def matchesAt_iff)

lemma no_match_before:
  assumes "i \<le> length s"
  shows "(\<forall>j<i. \<forall>h. \<not> matchesAt p s j h) = (\<forall>j<i. matchHere p (drop j s) = None)"
proof -
  have "\<And>j. j < i \<Longrightarrow> (\<forall>h. \<not> matchesAt p s j h) = (matchHere p (drop j s) = None)"
    using assms by (simp add: matchesAt_iff)
  then show ?thesis
    by simp
qed

lemma regexMatch_leftmost: "(regexMatch p s = Some g) = leftmostMatch p s g"
proof
  assume "regexMatch p s = Some g"
  then obtain i where i: "i \<le> length s" and m: "matchHere p (drop i s) = Some g"
    and n: "\<forall>j<i. matchHere p (drop j s) = None"
    unfolding regexMatch_Some_iff by blast
  from i m have "matchesAt p s i g"
    by (simp add: matchesAt_iff)
  moreover from n have "\<forall>j<i. \<forall>h. \<not> matchesAt p s j h"
    by (simp only: no_match_before[OF i])
  ultimately show "leftmostMatch p s g"
    unfolding leftmostMatch_def by blast
next
  assume "leftmostMatch p s g"
  then obtain i where a: "matchesAt p s i g" and n: "\<forall>j<i. \<forall>h. \<not> matchesAt p s j h"
    unfolding leftmostMatch_def by blast
  from a have i: "i \<le> length s" and m: "matchHere p (drop i s) = Some g"
    by (simp_all add: matchesAt_iff)
  from n have "\<forall>j<i. matchHere p (drop j s) = None"
    by (simp only: no_match_before[OF i])
  with i m show "regexMatch p s = Some g"
    unfolding regexMatch_Some_iff by blast
qed

lemma firstGroup_Some_iff:
  "(firstGroup ps s = Some g) =
     (\<exists>k<length ps. regexMatch (ps ! k) s = Some g \<and> (\<forall>j<k. regexMatch (ps ! j) s = None))"
proof (induction ps)
  case Nil
  show ?case by simp
next
  case (Cons p ps)
  show ?case
  proof (cases "regexMatch p s")
    case None
    then show ?thesis
      by (simp add: Ex_less_Suc2 All_less_Suc2 Cons.IH)
  next
    case (Some h)
    then have "h \<noteq> []"
      by (simp add: regexMatch_group)
    with Some show ?thesis
      by (simp add: Ex_less_Suc2 All_less_Suc2)
  qed
qed

lemma firstGroup_None_iff:
  "(firstGroup ps s = None) = (\<forall>k<length ps. regexMatch (ps ! k) s = None)"
proof (induction ps)
  case Nil
  show ?case by simp
next
  case (Cons p ps)
  show ?case
  proof (cases "regexMatch p s")
    case None
    then show ?thesis
      by (simp add: All_less_Suc2 Cons.IH)
  next
    case (Some h)
    then have "h \<noteq> []"
      by (simp add: regexMatch_group)
    with Some show ?thesis
      by (auto simp: All_less_Suc2)
  qed
qed

subsection \<open>The pattern list\<close>

lemma matchHere_Nil: "matchHere p [] = None"
  by (cases p) (simp_all add: matchHere_def)

lemma firstGroup_Nil: "firstGroup ps [] = None"
  by (induction ps) (simp_all add: matchHere_Nil)

lemma extract_firstGroup: "extractGoogleFileId input = firstGroup patterns (trim input)"
  by (simp add: extractGoogleFileId_def firstGroup_Nil Let_def)

lemma firstGroup_append:
  "firstGroup (ps @ qs) s = (case firstGroup ps s of Some g \<Rightarrow> Some g | None \<Rightarrow> firstGroup qs s)"
  by (induction ps) (auto split: option.splits)

lemma firstGroup_None_mem:
  "firstGroup ps s = None \<Longrightarrow> p \<in> set ps \<Longrightarrow> regexMatch p s = None"
  by (induction ps) (auto split: option.splits if_splits dest: regexMatch_group)

lemma uc_classes:
  assumes "matchClasses (lit ''/uc?id='') t = Some r"
  shows "matchClasses (js ''?&'' # lit ''id='') (drop 3 t) = Some r \<and> 3 \<le> length t"
proof -
  from assms obtain l where t: "t = l @ r"
    and l: "list_all2 (\<lambda>c cls. c \<in> set cls) l (lit ''/uc?id='')"
    unfolding matchClasses_iff by blast
  from l have "l = js ''/uc?id=''"
    by (simp add: lit_def js_def list_all2_Cons2)
  then show ?thesis
    unfolding t by (simp add: lit_def js_def)
qed

lemma uc_here:
  assumes "matchHere (lit ''/uc?id='') t = Some g"
  shows "matchHere (js ''?&'' # lit ''id='') (drop 3 t) = Some g \<and> 3 \<le> length t"
proof -
  from assms obtain r where "matchClasses (lit ''/uc?id='') t = Some r"
    by (auto simp: matchHere_def split: option.splits)
  from uc_classes[OF this] this assms show ?thesis
    by (simp add: matchHere_def)
qed

lemma uc_subsumed:
  assumes "regexMatch (lit ''/uc?id='') s \<noteq> None"
  shows "regexMatch (js ''?&'' # lit ''id='') s \<noteq> None"
proof -
  from assms obtain g where "regexMatch (lit ''/uc?id='') s = Some g"
    by blast
  then obtain i where i: "i \<le> length s" and m: "matchHere (lit ''/uc?id='') (drop i s) = Some g"
    unfolding regexMatch_Some_iff by blast
  from uc_here[OF m] have h: "matchHere (js ''?&'' # lit ''id='') (drop (3 + i) s) = Some g"
    and "3 \<le> length s - i"
    by simp_all
  with i have "3 + i \<le> length s"
    by simp
  with h show ?thesis
    unfolding regexMatch_None_iff by force
qed

subsection \<open>Decoding what encodeURIComponent wrote\<close>

lemma unat_small: "n < 65536 \<Longrightarrow> unat (of_nat n :: unit16) = n"
  by (simp add: unat_of_nat)

lemma unat_lt_65536: "unat (c :: unit16) < 65536"
  using unsigned_less[of c, where 'a = nat] by simp

lemma hexDigit_unat: "n < 16 \<Longrightarrow> unat (hexDigit n) = (if n < 10 then 48 + n else 55 + n)"
  by (simp add: hexDigit_def unat_small del: of_nat_add of_nat_numeral)

lemma hexValue_unat:
  "hexValue c =
     (if 48 \<le> unat c \<and> unat c \<le> 57 then Some (unat c - 48)
      else if 65 \<le> unat c \<and> unat c \<le> 70 then Some (unat c - 55)
      else if 97 \<le> unat c \<and> unat c \<le> 102 then Some (unat c - 87)
      else None)"
  by (simp add: hexValue_def word_le_nat_alt)

lemma hexValue_hexDigit: "n < 16 \<Longrightarrow> hexValue (hexDigit n) = Some n"
  by (simp add: hexValue_unat hexDigit_unat)

lemma hexDigit_not_percent: "n < 16 \<Longrightarrow> hexDigit n \<noteq> 0x25"
  by (auto simp: word_unat_eq_iff hexDigit_unat)

lemma unescape_percentOctet:
  assumes "b < 256"
  shows "unescape (percentOctet b @ s) = map_option ((#) (Octet b)) (unescape s)"
proof -
  have h: "b div 16 < 16" and l: "b mod 16 < 16"
    using assms by simp_all
  have "16 * (b div 16) + b mod 16 = b"
    by simp
  then show ?thesis
    by (simp add: percentOctet_def hexValue_hexDigit[OF h] hexValue_hexDigit[OF l])
qed

lemma unescape_octets:
  "list_all (\<lambda>b. b < 256) os \<Longrightarrow>
   unescape (concat (map percentOctet os) @ s) = map_option ((@) (map Octet os)) (unescape s)"
proof (induction os)
  case Nil
  show ?case
    by (cases "unescape s") simp_all
next
  case (Cons b os)
  then show ?case
    by (cases "unescape s") (simp_all add: unescape_percentOctet)
qed

lemma sextet: "(n::nat) mod 64 < 64" "(n::nat) div 64 mod 64 < 64" "(n::nat) div 4096 mod 64 < 64"
  by simp_all

lemma split_64: "(q::nat) div 64 * 4096 + q mod 64 * 64 = q * 64"
proof -
  have "q * 64 = (q div 64 * 64 + q mod 64) * 64"
    by simp
  also have "\<dots> = q div 64 * 64 * 64 + q mod 64 * 64"
    by (rule add_mult_distrib)
  also have "q div 64 * 64 * 64 = q div 64 * 4096"
    by simp
  finally show ?thesis
    by simp
qed

lemma split_4096: "(cp::nat) div 4096 * 4096 + cp div 64 mod 64 * 64 + cp mod 64 = cp"
proof -
  have "cp div 4096 = cp div 64 div 64"
    by (simp add: div_mult2_eq[symmetric])
  then have "cp div 4096 * 4096 + cp div 64 mod 64 * 64 = cp div 64 * 64"
    using split_64[of "cp div 64"] by simp
  then show ?thesis
    by simp
qed

lemma split_262144:
  "(cp::nat) div 262144 * 262144 + cp div 4096 mod 64 * 4096 + cp div 64 mod 64 * 64 +
   cp mod 64 = cp"
proof -
  have "cp div 262144 = cp div 4096 div 64"
    by (simp add: div_mult2_eq[symmetric])
  then have "cp div 262144 * 4096 + cp div 4096 mod 64 * 64 = cp div 4096 * 64"
    using split_64[of "cp div 4096"] by simp
  then have "(cp div 262144 * 4096 + cp div 4096 mod 64 * 64) * 64 = cp div 4096 * 64 * 64"
    by simp
  then have "cp div 262144 * 262144 + cp div 4096 mod 64 * 4096 = cp div 4096 * 4096"
    by (simp add: algebra_simps)
  with split_4096[of cp] show ?thesis
    by simp
qed

lemma utf8Encode_octets: "cp < 0x110000 \<Longrightarrow> list_all (\<lambda>b. b < 256) (utf8Encode cp)"
proof -
  assume a: "cp < 0x110000"
  have s: "cp mod 64 < 64" "cp div 64 mod 64 < 64" "cp div 4096 mod 64 < 64"
    by simp_all
  have "cp < 0x800 \<Longrightarrow> cp div 64 < 32" "cp < 0x10000 \<Longrightarrow> cp div 4096 < 16"
    "cp div 262144 < 8"
    using a by simp_all
  with s show ?thesis
    by (auto simp: utf8Encode_def)
qed

lemma unescape_escapeCodePoint:
  "cp < 0x110000 \<Longrightarrow>
   unescape (escapeCodePoint cp @ s) = map_option ((@) (map Octet (utf8Encode cp))) (unescape s)"
  unfolding escapeCodePoint_def by (rule unescape_octets) (rule utf8Encode_octets)

lemma unescape_unescaped:
  "isUnescaped c \<Longrightarrow> unescape (c # s) = map_option ((#) (Unit c)) (unescape s)"
proof -
  assume "isUnescaped c"
  then have "c \<noteq> 0x25"
    by (auto simp: isUnescaped_def)
  then show ?thesis
    by simp
qed

lemma append_single: "(@) [x] = (#) x"
  by (rule ext) simp

lemma utf8Decode_1:
  assumes "cp < 0x80"
  shows "utf8Decode (map Octet (utf8Encode cp) @ r) = map_option ((@) (utf16Encode cp)) (utf8Decode r)"
  using assms by (simp add: utf8Encode_def utf16Encode_def append_single)

lemma utf8Decode_2:
  assumes "0x80 \<le> cp" "cp < 0x800"
  shows "utf8Decode (map Octet (utf8Encode cp) @ r) = map_option ((@) (utf16Encode cp)) (utf8Decode r)"
proof -
  have d: "cp div 64 < 32"
    using assms by simp
  have e: "utf8Encode cp = [192 + cp div 64, 128 + cp mod 64]"
    using assms by (simp add: utf8Encode_def)
  have c: "(192 + cp div 64 - 192) * 64 + (128 + cp mod 64 - 128) = cp"
    by simp
  show ?thesis
    unfolding e using d assms by (simp add: Let_def isContinuation_def c)
qed

lemma utf8Decode_3:
  assumes "0x800 \<le> cp" "cp < 0x10000" "\<not> (0xD800 \<le> cp \<and> cp \<le> 0xDFFF)"
  shows "utf8Decode (map Octet (utf8Encode cp) @ r) = map_option ((@) (utf16Encode cp)) (utf8Decode r)"
proof -
  have d: "cp div 4096 < 16"
    using assms by simp
  have e: "utf8Encode cp = [224 + cp div 4096, 128 + cp div 64 mod 64, 128 + cp mod 64]"
    using assms by (simp add: utf8Encode_def)
  show ?thesis
    unfolding e using d assms by (simp add: Let_def isContinuation_def split_4096)
qed

lemma utf8Decode_4:
  assumes "0x10000 \<le> cp" "cp < 0x110000"
  shows "utf8Decode (map Octet (utf8Encode cp) @ r) = map_option ((@) (utf16Encode cp)) (utf8Decode r)"
proof -
  have d: "cp div 262144 < 8"
    using assms by simp
  have e: "utf8Encode cp =
             [240 + cp div 262144, 128 + cp div 4096 mod 64, 128 + cp div 64 mod 64,
              128 + cp mod 64]"
    using assms by (simp add: utf8Encode_def)
  show ?thesis
    unfolding e using d assms by (simp add: Let_def isContinuation_def split_262144)
qed

lemma utf8Decode_encode:
  assumes "cp < 0x110000" "\<not> (0xD800 \<le> cp \<and> cp \<le> 0xDFFF)"
  shows "utf8Decode (map Octet (utf8Encode cp) @ r) = map_option ((@) (utf16Encode cp)) (utf8Decode r)"
proof -
  consider "cp < 0x80" | "0x80 \<le> cp \<and> cp < 0x800" | "0x800 \<le> cp \<and> cp < 0x10000"
    | "0x10000 \<le> cp"
    by linarith
  then show ?thesis
  proof cases
    case 1
    then show ?thesis by (rule utf8Decode_1)
  next
    case 2
    then show ?thesis by (simp add: utf8Decode_2)
  next
    case 3
    with assms show ?thesis by (simp add: utf8Decode_3)
  next
    case 4
    with assms show ?thesis by (simp add: utf8Decode_4)
  qed
qed

lemma utf16_single:
  assumes "\<not> isLeadingSurrogate c" "\<not> isTrailingSurrogate c"
  shows "utf16Encode (unat c) = [c] \<and> unat c < 0x110000 \<and>
         \<not> (0xD800 \<le> unat c \<and> unat c \<le> 0xDFFF)"
  using assms unat_lt_65536[of c]
  by (auto simp: utf16Encode_def isLeadingSurrogate_def isTrailingSurrogate_def word_le_nat_alt)

lemma utf16_pair:
  assumes "isLeadingSurrogate c" "isTrailingSurrogate d"
  shows "utf16Encode (surrogatePairToCodePoint c d) = [c, d] \<and>
         surrogatePairToCodePoint c d < 0x110000 \<and> 0xE000 \<le> surrogatePairToCodePoint c d"
proof -
  define a where "a = unat c - 0xD800"
  define b where "b = unat d - 0xDC00"
  have a: "a < 0x400" and ca: "unat c = 0xD800 + a"
    using assms(1) by (auto simp: a_def isLeadingSurrogate_def word_le_nat_alt)
  have b: "b < 0x400" and db: "unat d = 0xDC00 + b"
    using assms(2) by (auto simp: b_def isTrailingSurrogate_def word_le_nat_alt)
  have cp: "surrogatePairToCodePoint c d = a * 0x400 + b + 0x10000"
    by (simp add: surrogatePairToCodePoint_def a_def b_def)
  have dv: "(a * 0x400 + b) div 0x400 = a" and md: "(a * 0x400 + b) mod 0x400 = b"
    using b by simp_all
  have "of_nat (0xD800 + a) = c" and "of_nat (0xDC00 + b) = d"
    using ca[symmetric] db[symmetric] by simp_all
  then have "utf16Encode (surrogatePairToCodePoint c d) = [c, d]"
    unfolding cp utf16Encode_def using dv md by simp
  moreover have "surrogatePairToCodePoint c d < 0x110000"
    unfolding cp using a b by simp
  moreover have "0xE000 \<le> surrogatePairToCodePoint c d"
    unfolding cp by simp
  ultimately show ?thesis
    by simp
qed

subsection \<open>The round trip through a query parameter\<close>

lemma decode_encode:
  "encodeURIComponent s = Inr e \<Longrightarrow> \<exists>items. unescape e = Some items \<and> utf8Decode items = Some s"
proof (induction s arbitrary: e rule: encodeURIComponent.induct)
  case 1
  then show ?case by simp
next
  case (2 c s)
  show ?case
  proof (cases "isUnescaped c")
    case True
    with 2(4) obtain e' where e': "encodeURIComponent s = Inr e'" and e: "e = c # e'"
      by (auto simp: appendTo_def split: sum.splits)
    from 2(1)[OF True e'] obtain items where "unescape e' = Some items" "utf8Decode items = Some s"
      by blast
    then show ?thesis
      unfolding e unescape_unescaped[OF True] by simp
  next
    case nu: False
    show ?thesis
    proof (cases "isTrailingSurrogate c")
      case True
      with nu 2(4) show ?thesis by simp
    next
      case nt: False
      show ?thesis
      proof (cases "isLeadingSurrogate c")
        case nl: False
        with nu nt 2(4) obtain e' where e': "encodeURIComponent s = Inr e'"
          and e: "e = escapeCodePoint (unat c) @ e'"
          by (auto simp: appendTo_def split: sum.splits)
        from 2(3)[OF nu nt nl e'] obtain items where i: "unescape e' = Some items"
          "utf8Decode items = Some s"
          by blast
        from utf16_single[OF nl nt] have u: "utf16Encode (unat c) = [c]"
          and b: "unat c < 0x110000" "\<not> (0xD800 \<le> unat c \<and> unat c \<le> 0xDFFF)"
          by simp_all
        show ?thesis
          unfolding e
          by (simp add: unescape_escapeCodePoint[OF b(1)] i utf8Decode_encode[OF b] u)
      next
        case l: True
        with nu nt 2(4) obtain d s' e' where s: "s = d # s'" and t: "isTrailingSurrogate d"
          and e': "encodeURIComponent s' = Inr e'"
          and e: "e = escapeCodePoint (surrogatePairToCodePoint c d) @ e'"
          by (auto simp: appendTo_def split: sum.splits list.splits if_splits)
        from 2(2)[OF nu nt l s t e'] obtain items where i: "unescape e' = Some items"
          "utf8Decode items = Some s'"
          by blast
        from utf16_pair[OF l t] have u: "utf16Encode (surrogatePairToCodePoint c d) = [c, d]"
          and b: "surrogatePairToCodePoint c d < 0x110000"
          and n: "\<not> (0xD800 \<le> surrogatePairToCodePoint c d \<and> surrogatePairToCodePoint c d \<le> 0xDFFF)"
          by simp_all
        show ?thesis
          unfolding e s
          by (simp add: unescape_escapeCodePoint[OF b] i utf8Decode_encode[OF b n] u)
      qed
    qed
  qed
qed

lemma decodeURIComponent_encode:
  "encodeURIComponent s = Inr e \<Longrightarrow> decodeURIComponent e = Some s"
  using decode_encode[of s e] by (auto simp: decodeURIComponent_def)

lemma hexDigit_encoded: "n < 16 \<Longrightarrow> isEncoded (hexDigit n)"
  by (auto simp: isEncoded_def word_unat_eq_iff hexDigit_unat)

lemma percentOctet_encoded: "b < 256 \<Longrightarrow> list_all isEncoded (percentOctet b)"
proof -
  assume "b < 256"
  then have "b div 16 < 16" "b mod 16 < 16"
    by simp_all
  then show ?thesis
    by (simp add: percentOctet_def hexDigit_encoded) (simp add: isEncoded_def)
qed

lemma octets_encoded:
  "list_all (\<lambda>b. b < 256) os \<Longrightarrow> list_all isEncoded (concat (map percentOctet os))"
  by (induction os) (simp_all add: percentOctet_encoded)

lemma escape_encoded: "cp < 0x110000 \<Longrightarrow> list_all isEncoded (escapeCodePoint cp)"
  unfolding escapeCodePoint_def by (rule octets_encoded) (rule utf8Encode_octets)


lemma isUnescaped_encoded: "isUnescaped c \<Longrightarrow> isEncoded c"
  by (auto simp: isUnescaped_def isEncoded_def)

lemma encode_encoded: "encodeURIComponent s = Inr e \<Longrightarrow> list_all isEncoded e"
proof (induction s arbitrary: e rule: encodeURIComponent.induct)
  case 1
  then show ?case by simp
next
  case (2 c s)
  show ?case
  proof (cases "isUnescaped c")
    case True
    with 2(4) obtain e' where e': "encodeURIComponent s = Inr e'" and e: "e = c # e'"
      by (auto simp: appendTo_def split: sum.splits)
    from 2(1)[OF True e'] True show ?thesis
      unfolding e by (simp add: isUnescaped_encoded)
  next
    case nu: False
    show ?thesis
    proof (cases "isTrailingSurrogate c")
      case True
      with nu 2(4) show ?thesis by simp
    next
      case nt: False
      show ?thesis
      proof (cases "isLeadingSurrogate c")
        case nl: False
        with nu nt 2(4) obtain e' where e': "encodeURIComponent s = Inr e'"
          and e: "e = escapeCodePoint (unat c) @ e'"
          by (auto simp: appendTo_def split: sum.splits)
        from utf16_single[OF nl nt] have "unat c < 0x110000"
          by simp
        with 2(3)[OF nu nt nl e'] show ?thesis
          unfolding e by (simp add: escape_encoded)
      next
        case l: True
        with nu nt 2(4) obtain d s' e' where s: "s = d # s'" and t: "isTrailingSurrogate d"
          and e': "encodeURIComponent s' = Inr e'"
          and e: "e = escapeCodePoint (surrogatePairToCodePoint c d) @ e'"
          by (auto simp: appendTo_def split: sum.splits list.splits if_splits)
        from utf16_pair[OF l t] have "surrogatePairToCodePoint c d < 0x110000"
          by simp
        with 2(2)[OF nu nt l s t e'] show ?thesis
          unfolding e by (simp add: escape_encoded)
      qed
    qed
  qed
qed

lemma encoded_no_delimiter:
  assumes "list_all isEncoded e"
  shows "takeWhile (\<lambda>c. c \<noteq> 0x23) e = e" and "dropWhile (\<lambda>c. c \<noteq> 0x3F) e = []"
    and "splitOn 0x26 e = [e]"
proof -
  show "takeWhile (\<lambda>c. c \<noteq> 0x23) e = e"
    using assms by (induction e) (simp_all add: isEncoded_def)
  show "dropWhile (\<lambda>c. c \<noteq> 0x3F) e = []"
    using assms by (induction e) (simp_all add: isEncoded_def)
  show "splitOn 0x26 e = [e]"
    using assms by (induction e) (simp_all add: isEncoded_def)
qed

lemma rawParam_url:
  assumes "list_all isEncoded e"
  shows "rawParam (js ''url'') (js ''https://docs.google.com/gview?embedded=true&url='' @ e) = Some e"
  by (simp add: rawParam_def queryOf_def js_def encoded_no_delimiter[OF assms])

lemma rawParam_src:
  assumes "list_all isEncoded e"
  shows "rawParam (js ''src'') (js ''https://view.officeapps.live.com/op/embed.aspx?src='' @ e) = Some e"
  by (simp add: rawParam_def queryOf_def js_def encoded_no_delimiter[OF assms])

subsection \<open>When convertLink returns, and with which error\<close>

lemma convertGoogle_returns:
  assumes "list_all isIdChar ident"
  shows "\<exists>r. convertGoogle toLowerCase raw ident type = Inr r"
proof (cases type)
  case Pdf
  define E where "E =
     (if js_includes (toLowerCase raw) (js ''docs.google.com/presentation'')
      then js ''https://docs.google.com/presentation/d/'' @ ident @ js ''/export/pdf''
      else if js_includes (toLowerCase raw) (js ''docs.google.com/document'')
      then js ''https://docs.google.com/document/d/'' @ ident @ js ''/export?format=pdf''
      else buildDriveDirectDownload ident)"
  have "isWellFormed E"
    using google_urls_wellFormed[OF assms] by (simp add: E_def)
  then obtain v where v: "buildDocsViewer E = Inr v"
    using viewer_returns(1)[of E] by blast
  have "convertGoogle toLowerCase raw ident Pdf =
          (case buildDocsViewer E of
             Inl e \<Rightarrow> Inl e
           | Inr v \<Rightarrow>
               Inr (noResult\<lparr>fileId := Some ident, exportUrl := Some E, previewUrl := Some v,
                 notes' := Some [js ''Preview uses Google Docs Viewer.'',
                   js ''Make sure the file is shared publicly (Anyone with the link '' @
                   [0x2192] @ js '' Viewer).'']\<rparr>))"
    by (simp only: convertGoogle.simps Let_def if_cancel E_def)
  then show ?thesis
    unfolding Pdf v by simp
qed (simp_all add: Let_def)

lemma convertDirect_throws:
  "(convertDirect direct type = Inl e) = ((type = Ppt \<or> type = Pdf) \<and> \<not> isWellFormed direct)"
proof (cases type)
  case Ppt
  show ?thesis
    using officeViewer_throws[of direct e]
    by (cases "buildMicrosoftOfficeViewer direct") (simp_all add: Ppt convertDirect_def js_error_eq[of _ e])
next
  case Pdf
  show ?thesis
    using docsViewer_throws[of direct e]
    by (cases "buildDocsViewer direct") (simp_all add: Pdf convertDirect_def js_error_eq[of _ e])
qed (simp_all add: convertDirect_def)

lemma convertLink_throws_iff:
  "(convertLink toLowerCase input type = Inl e) =
     (trim input \<noteq> [] \<and> \<not> isProbablyGoogleLink toLowerCase input \<and>
      (type = Ppt \<or> type = Pdf) \<and> \<not> isWellFormed (trim input))"
proof (cases "trim input = []")
  case True
  then show ?thesis
    by (simp add: convertLink_empty)
next
  case ne: False
  show ?thesis
  proof (cases "isProbablyGoogleLink toLowerCase input")
    case False
    with ne show ?thesis
      by (simp add: convertLink_direct convertDirect_throws)
  next
    case g: True
    show ?thesis
    proof (cases "extractGoogleFileId input")
      case None
      with ne g show ?thesis
        by (simp add: convertLink_noFileId)
    next
      case (Some ident)
      then have "list_all isIdChar ident"
        by (simp add: extract_group)
      from convertGoogle_returns[OF this, of toLowerCase "trim input" type]
      show ?thesis
        using g Some by (auto simp: convertLink_google)
    qed
  qed
qed

lemma convertLink_error:
  assumes "convertLink toLowerCase input type = Inr r"
  shows "error r =
           (if trim input = [] then Some pasteFirst
            else if isProbablyGoogleLink toLowerCase input \<and> extractGoogleFileId input = None
            then Some noFileId
            else None)"
proof (cases "trim input = []")
  case True
  with assms show ?thesis
    by (auto simp: convertLink_empty noResult_def)
next
  case ne: False
  show ?thesis
  proof (cases "isProbablyGoogleLink toLowerCase input")
    case False
    with ne assms have "convertDirect (trim input) type = Inr r"
      by (simp add: convertLink_direct)
    from convertDirect_result[OF this] ne False show ?thesis
      by simp
  next
    case g: True
    show ?thesis
    proof (cases "extractGoogleFileId input")
      case None
      with ne g assms show ?thesis
        by (auto simp: convertLink_noFileId noResult_def)
    next
      case (Some ident)
      with g assms have "convertGoogle toLowerCase (trim input) ident type = Inr r"
        by (simp add: convertLink_google)
      from convertGoogle_result[OF this] ne g Some show ?thesis
        by simp
    qed
  qed
qed

section \<open>Claims\<close>

text \<open>
  C1. For every input classified as a Google link from which the identifier \<open>ident\<close> is
  extracted, \<open>convertLink\<close> with type \<open>pdf\<close> returns; its export URL is the Slides PDF
  export of \<open>ident\<close> when the lower-cased trimmed input contains
  \<^verbatim>\<open>docs.google.com/presentation\<close>, otherwise the Docs PDF export of \<open>ident\<close> when it
  contains \<^verbatim>\<open>docs.google.com/document\<close>, and otherwise (with
  \<^verbatim>\<open>docs.google.com/spreadsheets\<close> in it or not) the direct download of \<open>ident\<close>. The
  preview URL is \<open>buildDocsViewer\<close> of that final export URL.
\<close>

theorem google_pdf_export:
  assumes "isProbablyGoogleLink toLowerCase input"
    and "extractGoogleFileId input = Some ident"
  shows "\<exists>r v. convertLink toLowerCase input Pdf = Inr r \<and>
           (js_includes (toLowerCase (trim input)) (js ''docs.google.com/presentation'') \<longrightarrow>
              exportUrl r =
                Some (js ''https://docs.google.com/presentation/d/'' @ ident @ js ''/export/pdf'')) \<and>
           (\<not> js_includes (toLowerCase (trim input)) (js ''docs.google.com/presentation'') \<and>
            js_includes (toLowerCase (trim input)) (js ''docs.google.com/document'') \<longrightarrow>
              exportUrl r =
                Some (js ''https://docs.google.com/document/d/'' @ ident @ js ''/export?format=pdf'')) \<and>
           (\<not> js_includes (toLowerCase (trim input)) (js ''docs.google.com/presentation'') \<and>
            \<not> js_includes (toLowerCase (trim input)) (js ''docs.google.com/document'') \<longrightarrow>
              exportUrl r = Some (buildDriveDirectDownload ident)) \<and>
           buildDocsViewer (case exportUrl r of Some u \<Rightarrow> u | None \<Rightarrow> []) = Inr v \<and>
           previewUrl r = Some v"
proof -
  have ids: "list_all isIdChar ident"
    using assms(2) by (simp add: extract_group)
  define E where "E =
     (if js_includes (toLowerCase (trim input)) (js ''docs.google.com/presentation'')
      then js ''https://docs.google.com/presentation/d/'' @ ident @ js ''/export/pdf''
      else if js_includes (toLowerCase (trim input)) (js ''docs.google.com/document'')
      then js ''https://docs.google.com/document/d/'' @ ident @ js ''/export?format=pdf''
      else buildDriveDirectDownload ident)"
  have "isWellFormed E"
    using google_urls_wellFormed[OF ids] by (simp add: E_def)
  then obtain v where v: "buildDocsViewer E = Inr v"
    using viewer_returns(1)[of E] by blast
  have cg: "convertGoogle toLowerCase (trim input) ident Pdf =
          (case buildDocsViewer E of
             Inl e \<Rightarrow> Inl e
           | Inr v \<Rightarrow>
               Inr (noResult\<lparr>fileId := Some ident, exportUrl := Some E, previewUrl := Some v,
                 notes' := Some [js ''Preview uses Google Docs Viewer.'',
                   js ''Make sure the file is shared publicly (Anyone with the link '' @
                   [0x2192] @ js '' Viewer).'']\<rparr>))"
    by (simp only: convertGoogle.simps Let_def if_cancel E_def)
  define R where "R = noResult\<lparr>fileId := Some ident, exportUrl := Some E, previewUrl := Some v,
                 notes' := Some [js ''Preview uses Google Docs Viewer.'',
                   js ''Make sure the file is shared publicly (Anyone with the link '' @
                   [0x2192] @ js '' Viewer).'']\<rparr>"
  have cl: "convertLink toLowerCase input Pdf = Inr R"
    unfolding convertLink_google[OF assms] cg v by (simp add: R_def)
  have ex: "exportUrl R = Some E" and pv: "previewUrl R = Some v"
    by (simp_all add: R_def noResult_def)
  have e1: "js_includes (toLowerCase (trim input)) (js ''docs.google.com/presentation'') \<Longrightarrow>
              E = js ''https://docs.google.com/presentation/d/'' @ ident @ js ''/export/pdf''"
    by (simp add: E_def)
  have e2: "\<not> js_includes (toLowerCase (trim input)) (js ''docs.google.com/presentation'') \<Longrightarrow>
            js_includes (toLowerCase (trim input)) (js ''docs.google.com/document'') \<Longrightarrow>
              E = js ''https://docs.google.com/document/d/'' @ ident @ js ''/export?format=pdf''"
    by (simp add: E_def)
  have e3: "\<not> js_includes (toLowerCase (trim input)) (js ''docs.google.com/presentation'') \<Longrightarrow>
            \<not> js_includes (toLowerCase (trim input)) (js ''docs.google.com/document'') \<Longrightarrow>
              E = buildDriveDirectDownload ident"
    by (simp add: E_def)
  show ?thesis
    apply (rule exI[of _ R])
    apply (rule exI[of _ v])
    using cl v e1 e2 e3 by (simp add: ex pv)
qed

theorem google_pdf_export_witness:
  "isProbablyGoogleLink asciiLower (js ''https://docs.google.com/document/d/abc/edit'') \<and>
   extractGoogleFileId (js ''https://docs.google.com/document/d/abc/edit'') = Some (js ''abc'') \<and>
   (\<exists>r v. convertLink asciiLower (js ''https://docs.google.com/document/d/abc/edit'') Pdf = Inr r \<and>
      exportUrl r = Some (js ''https://docs.google.com/document/d/abc/export?format=pdf'') \<and>
      buildDocsViewer (js ''https://docs.google.com/document/d/abc/export?format=pdf'') = Inr v \<and>
      previewUrl r = Some v)"
proof -
  let ?u = "js ''https://docs.google.com/document/d/abc/edit''"
  have g: "isProbablyGoogleLink asciiLower ?u"
    by (simp add: evalStrings)
  have x: "extractGoogleFileId ?u = Some (js ''abc'')"
    by (simp add: evalStrings)
  have p: "\<not> js_includes (asciiLower (trim ?u)) (js ''docs.google.com/presentation'')"
    by (simp add: evalStrings)
  have d: "js_includes (asciiLower (trim ?u)) (js ''docs.google.com/document'')"
    by (simp add: evalStrings)
  have j: "js ''https://docs.google.com/document/d/'' @ js ''abc'' @ js ''/export?format=pdf'' =
           js ''https://docs.google.com/document/d/abc/export?format=pdf''"
    by (simp add: js_def)
  from google_pdf_export[OF g x] obtain r v where
    "convertLink asciiLower ?u Pdf = Inr r"
    "exportUrl r = Some (js ''https://docs.google.com/document/d/abc/export?format=pdf'')"
    "buildDocsViewer (case exportUrl r of Some u \<Rightarrow> u | None \<Rightarrow> []) = Inr v"
    "previewUrl r = Some v"
    using p d unfolding j by blast
  then show ?thesis
    using g x by auto
qed

text \<open>
  The three tests are an \<^verbatim>\<open>if / else if / else if\<close> chain, so a later marker does not
  count once an earlier one is found: a Docs link whose query string mentions
  \<^verbatim>\<open>docs.google.com/presentation\<close> contains \<^verbatim>\<open>docs.google.com/document\<close> and still
  gets the Slides PDF export, not the Docs PDF export.
\<close>

theorem google_pdf_export_counterexample:
  "isProbablyGoogleLink asciiLower
     (js ''https://docs.google.com/document/d/abc/edit?from=docs.google.com/presentation'') \<and>
   extractGoogleFileId
     (js ''https://docs.google.com/document/d/abc/edit?from=docs.google.com/presentation'') =
     Some (js ''abc'') \<and>
   js_includes
     (asciiLower (trim (js ''https://docs.google.com/document/d/abc/edit?from=docs.google.com/presentation'')))
     (js ''docs.google.com/document'') \<and>
   convertLink asciiLower
     (js ''https://docs.google.com/document/d/abc/edit?from=docs.google.com/presentation'') Pdf =
     Inr \<lparr>fileId = Some (js ''abc''),
          exportUrl = Some (js ''https://docs.google.com/presentation/d/abc/export/pdf''),
          embedUrl = None,
          previewUrl =
            Some (js ''https://docs.google.com/gview?embedded=true&url=https%3A%2F%2Fdocs.google.com%2Fpresentation%2Fd%2Fabc%2Fexport%2Fpdf''),
          notes' = Some [js ''Preview uses Google Docs Viewer.'',
                         js ''Make sure the file is shared publicly (Anyone with the link '' @
                         [0x2192] @ js '' Viewer).''],
          error = None\<rparr> \<and>
   js ''https://docs.google.com/presentation/d/abc/export/pdf'' \<noteq>
     js ''https://docs.google.com/document/d/abc/export?format=pdf''"
proof -
  let ?u = "js ''https://docs.google.com/document/d/abc/edit?from=docs.google.com/presentation''"
  have g: "isProbablyGoogleLink asciiLower ?u"
    by (simp add: evalStrings)
  have x: "extractGoogleFileId ?u = Some (js ''abc'')"
    by (simp add: evalStrings)
  have d: "js_includes (asciiLower (trim ?u)) (js ''docs.google.com/document'')"
    by (simp add: evalStrings)
  have p: "js_includes (asciiLower (trim ?u)) (js ''docs.google.com/presentation'')"
    by (simp add: evalStrings)
  have v: "buildDocsViewer (js ''https://docs.google.com/presentation/d/'' @ js ''abc'' @ js ''/export/pdf'') =
             Inr (js ''https://docs.google.com/gview?embedded=true&url=https%3A%2F%2Fdocs.google.com%2Fpresentation%2Fd%2Fabc%2Fexport%2Fpdf'')"
    by (simp add: evalEncode js_def)
  have j: "js ''https://docs.google.com/presentation/d/'' @ js ''abc'' @ js ''/export/pdf'' =
           js ''https://docs.google.com/presentation/d/abc/export/pdf''"
    by (simp add: js_def)
  have c: "convertLink asciiLower ?u Pdf =
     Inr \<lparr>fileId = Some (js ''abc''),
          exportUrl = Some (js ''https://docs.google.com/presentation/d/abc/export/pdf''),
          embedUrl = None,
          previewUrl =
            Some (js ''https://docs.google.com/gview?embedded=true&url=https%3A%2F%2Fdocs.google.com%2Fpresentation%2Fd%2Fabc%2Fexport%2Fpdf''),
          notes' = Some [js ''Preview uses Google Docs Viewer.'',
                         js ''Make sure the file is shared publicly (Anyone with the link '' @
                         [0x2192] @ js '' Viewer).''],
          error = None\<rparr>"
    unfolding convertLink_google[OF g x]
    by (simp only: convertGoogle.simps Let_def p if_True v sum.case) (simp add: noResult_def j)
  have n: "js ''https://docs.google.com/presentation/d/abc/export/pdf'' \<noteq>
     js ''https://docs.google.com/document/d/abc/export?format=pdf''"
    by (simp add: js_def)
  from g x d c n show ?thesis
    by (simp only: simp_thms)
qed

text \<open>
  C2. \<open>extractGoogleFileId\<close> returns \<open>g\<close> exactly when some pattern of the list, in
  the order \<^verbatim>\<open>/file/d/\<close>, \<^verbatim>\<open>/presentation/d/\<close>, \<^verbatim>\<open>/document/d/\<close>,
  \<^verbatim>\<open>/spreadsheets/d/\<close>, \<^verbatim>\<open>[?&]id=\<close>, \<^verbatim>\<open>/uc?id=\<close>, has its leftmost match in the
  trimmed input with group \<open>g\<close> and no earlier pattern of the list matches anywhere; it
  returns null exactly when no pattern matches. The group of a match is a maximal
  non-empty run of \<^verbatim>\<open>[a-zA-Z0-9_-]\<close>. On the presentation link of the specification
  the input is classified as a Google link and the identifier
  \<^verbatim>\<open>1KocQY1Q3rQfZGl8BTNSG8fEqGh-XpUq0\<close> is extracted.
\<close>

theorem extract_first_pattern_wins:
  "patterns =
     [lit ''/file/d/'', lit ''/presentation/d/'', lit ''/document/d/'',
      lit ''/spreadsheets/d/'', js ''?&'' # lit ''id='', lit ''/uc?id=''] \<and>
   ((extractGoogleFileId input = Some g) =
      (\<exists>k<length patterns. leftmostMatch (patterns ! k) (trim input) g \<and>
         (\<forall>j<k. \<not> hasMatch (patterns ! j) (trim input)))) \<and>
   ((extractGoogleFileId input = None) =
      (\<forall>k<length patterns. \<not> hasMatch (patterns ! k) (trim input))) \<and>
   (lowersAscii toLowerCase \<longrightarrow>
      isProbablyGoogleLink toLowerCase
        (js ''https://docs.google.com/presentation/d/1KocQY1Q3rQfZGl8BTNSG8fEqGh-XpUq0/edit?usp=drive_link'') \<and>
      extractGoogleFileId
        (js ''https://docs.google.com/presentation/d/1KocQY1Q3rQfZGl8BTNSG8fEqGh-XpUq0/edit?usp=drive_link'') =
        Some (js ''1KocQY1Q3rQfZGl8BTNSG8fEqGh-XpUq0''))"
proof -
  let ?u = "js ''https://docs.google.com/presentation/d/1KocQY1Q3rQfZGl8BTNSG8fEqGh-XpUq0/edit?usp=drive_link''"
  have a: "(extractGoogleFileId input = Some g) =
      (\<exists>k<length patterns. leftmostMatch (patterns ! k) (trim input) g \<and>
         (\<forall>j<k. \<not> hasMatch (patterns ! j) (trim input)))"
    by (simp only: extract_firstGroup firstGroup_Some_iff regexMatch_leftmost regexMatch_hasMatch)
  have b: "(extractGoogleFileId input = None) =
      (\<forall>k<length patterns. \<not> hasMatch (patterns ! k) (trim input))"
    by (simp only: extract_firstGroup firstGroup_None_iff regexMatch_hasMatch)
  have x: "extractGoogleFileId ?u = Some (js ''1KocQY1Q3rQfZGl8BTNSG8fEqGh-XpUq0'')"
    by (simp add: evalStrings)
  have c: "isProbablyGoogleLink toLowerCase ?u" if l: "lowersAscii toLowerCase"
  proof -
    have t: "trim ?u = ?u"
      by (simp add: js_def trim_def isWhiteSpace_def)
    have "list_all isAscii ?u"
      by (simp add: js_def isAscii_def)
    then have "toLowerCase ?u = asciiLower ?u"
      using l by (simp add: lowersAscii_def)
    then show ?thesis
      unfolding isProbablyGoogleLink_def t
      by (simp add: js_def asciiLower_def asciiLowerUnit_def)
  qed
  have p: "patterns =
     [lit ''/file/d/'', lit ''/presentation/d/'', lit ''/document/d/'',
      lit ''/spreadsheets/d/'', js ''?&'' # lit ''id='', lit ''/uc?id='']"
    by (rule patterns_def)
  from p a b c x show ?thesis
    by blast
qed

theorem extract_first_pattern_wins_witness:
  "lowersAscii asciiLower \<and>
   extractGoogleFileId (js ''https://drive.google.com/file/d/AAA/view?id=BBB'') = Some (js ''AAA'') \<and>
   (\<exists>k<length patterns.
      leftmostMatch (patterns ! k) (trim (js ''https://drive.google.com/file/d/AAA/view?id=BBB''))
        (js ''AAA'') \<and>
      (\<forall>j<k. \<not> hasMatch (patterns ! j) (trim (js ''https://drive.google.com/file/d/AAA/view?id=BBB'')))) \<and>
   isProbablyGoogleLink asciiLower
     (js ''https://docs.google.com/presentation/d/1KocQY1Q3rQfZGl8BTNSG8fEqGh-XpUq0/edit?usp=drive_link'') \<and>
   extractGoogleFileId
     (js ''https://docs.google.com/presentation/d/1KocQY1Q3rQfZGl8BTNSG8fEqGh-XpUq0/edit?usp=drive_link'') =
     Some (js ''1KocQY1Q3rQfZGl8BTNSG8fEqGh-XpUq0'')"
proof -
  let ?u = "js ''https://drive.google.com/file/d/AAA/view?id=BBB''"
  have x: "extractGoogleFileId ?u = Some (js ''AAA'')"
    by (simp add: evalStrings)
  from extract_first_pattern_wins[of ?u "js ''AAA''" asciiLower] x lowersAscii_asciiLower
  show ?thesis
    by blast
qed

text \<open>
  C3. For every input classified as a Google link from which the identifier \<open>X\<close> is
  extracted, \<open>convertLink\<close> with type \<open>ppt\<close> returns the export URL
  \<^verbatim>\<open>https://docs.google.com/presentation/d/X/export/pptx\<close>, and its preview URL and its
  embed URL are both
  \<^verbatim>\<open>https://docs.google.com/presentation/d/X/embed?start=false&loop=false&delayms=3000\<close>.
  With the viewer toggle off the page shows this result unchanged: the office viewer is
  not selected by the conversion.
\<close>

theorem google_ppt_urls:
  assumes "isProbablyGoogleLink toLowerCase input"
    and "extractGoogleFileId input = Some X"
  shows "\<exists>r. convertLink toLowerCase input Ppt = Inr r \<and>
           exportUrl r =
             Some (js ''https://docs.google.com/presentation/d/'' @ X @ js ''/export/pptx'') \<and>
           previewUrl r =
             Some (js ''https://docs.google.com/presentation/d/'' @ X @
                   js ''/embed?start=false&loop=false&delayms=3000'') \<and>
           embedUrl r = previewUrl r \<and>
           pageResult toLowerCase input Ppt False = Inr r"
  using assms
  by (simp add: convertLink_google pageResult_def buildSlidesExportPptx_def buildSlidesEmbed_def
      noResult_def Let_def)

theorem google_ppt_urls_witness:
  "isProbablyGoogleLink asciiLower (js ''https://docs.google.com/presentation/d/abc-1_Z/edit'') \<and>
   extractGoogleFileId (js ''https://docs.google.com/presentation/d/abc-1_Z/edit'') =
     Some (js ''abc-1_Z'') \<and>
   (\<exists>r. convertLink asciiLower (js ''https://docs.google.com/presentation/d/abc-1_Z/edit'') Ppt =
          Inr r \<and>
      exportUrl r = Some (js ''https://docs.google.com/presentation/d/abc-1_Z/export/pptx'') \<and>
      previewUrl r =
        Some (js ''https://docs.google.com/presentation/d/abc-1_Z/embed?start=false&loop=false&delayms=3000'') \<and>
      embedUrl r = previewUrl r \<and>
      pageResult asciiLower (js ''https://docs.google.com/presentation/d/abc-1_Z/edit'') Ppt False =
        Inr r)"
proof -
  have g: "isProbablyGoogleLink asciiLower
             (js ''https://docs.google.com/presentation/d/abc-1_Z/edit'')"
    by (simp add: evalStrings)
  have x: "extractGoogleFileId (js ''https://docs.google.com/presentation/d/abc-1_Z/edit'') =
             Some (js ''abc-1_Z'')"
    by (simp add: evalStrings)
  have j:
    "js ''https://docs.google.com/presentation/d/'' @ js ''abc-1_Z'' @ js ''/export/pptx'' =
       js ''https://docs.google.com/presentation/d/abc-1_Z/export/pptx''"
    "js ''https://docs.google.com/presentation/d/'' @ js ''abc-1_Z'' @
       js ''/embed?start=false&loop=false&delayms=3000'' =
       js ''https://docs.google.com/presentation/d/abc-1_Z/embed?start=false&loop=false&delayms=3000''"
    by (simp_all add: js_def)
  show ?thesis
    using g x google_ppt_urls[OF g x] by (simp only: j)
qed

text \<open>
  C4. For every input \<open>U\<close> whose trimmed form is not empty and is not classified as a
  Google link, and every type among \<open>image\<close>, \<open>video\<close> and \<open>audio\<close>, \<open>convertLink\<close>
  returns the trimmed input as both the export URL and the preview URL, with no error, no
  file identifier, no embed URL and the one note that the link is used as it is.
\<close>

theorem direct_media_passthrough:
  assumes "trim U \<noteq> []"
    and "\<not> isProbablyGoogleLink toLowerCase U"
    and "type = Image \<or> type = Video \<or> type = Audio"
  shows "convertLink toLowerCase U type =
           Inr \<lparr>fileId = None, exportUrl = Some (trim U), embedUrl = None,
                previewUrl = Some (trim U),
                notes' = Some [js ''This is not a Google Drive link. Using it as-is.''],
                error = None\<rparr>"
  using assms by (auto simp: convertLink_direct convertDirect_def noResult_def)

theorem direct_media_passthrough_witness:
  "trim (js ''https://example.com/a.mp4'') \<noteq> [] \<and>
   \<not> isProbablyGoogleLink asciiLower (js ''https://example.com/a.mp4'') \<and>
   convertLink asciiLower (js ''https://example.com/a.mp4'') Video =
     Inr \<lparr>fileId = None, exportUrl = Some (js ''https://example.com/a.mp4''), embedUrl = None,
          previewUrl = Some (js ''https://example.com/a.mp4''),
          notes' = Some [js ''This is not a Google Drive link. Using it as-is.''],
          error = None\<rparr>"
proof -
  let ?u = "js ''https://example.com/a.mp4''"
  have t: "trim ?u = ?u"
    by (simp add: js_def trim_def isWhiteSpace_def)
  have ne: "trim ?u \<noteq> []"
    unfolding t by (simp add: js_def)
  have g: "\<not> isProbablyGoogleLink asciiLower ?u"
    by (simp add: evalStrings)
  show ?thesis
    using ne g direct_media_passthrough[OF ne g, of Video] unfolding t by simp
qed

text \<open>
  The export URL is the trimmed input, not the input: on a direct link with a leading
  space the result differs from the input in both URLs.
\<close>

theorem direct_media_passthrough_counterexample:
  "\<not> isProbablyGoogleLink asciiLower (js '' https://example.com/a.png'') \<and>
   convertLink asciiLower (js '' https://example.com/a.png'') Image =
     Inr \<lparr>fileId = None, exportUrl = Some (js ''https://example.com/a.png''), embedUrl = None,
          previewUrl = Some (js ''https://example.com/a.png''),
          notes' = Some [js ''This is not a Google Drive link. Using it as-is.''],
          error = None\<rparr> \<and>
   js ''https://example.com/a.png'' \<noteq> js '' https://example.com/a.png''"
  by (simp add: evalStrings convertLink_def convertDirect_def noResult_def Let_def)

text \<open>
  C5. \<open>convertLink\<close> does not return for every pair of an input and a type: on the input
  that is the single unpaired surrogate code unit U+D800, which is not a Google link,
  the types \<open>ppt\<close> and \<open>pdf\<close> pass it to \<open>encodeURIComponent\<close>, which raises
  \<^verbatim>\<open>URIError\<close>. (The runtime's \<^verbatim>\<open>toLowerCase\<close> leaves this string as it is, as
  \<open>asciiLower\<close> does.)
\<close>

theorem lone_surrogate_throws:
  "convertLink asciiLower [0xD800] Ppt = Inl URIError \<and>
   convertLink asciiLower [0xD800] Pdf = Inl URIError"
  by (simp add: evalStrings convertLink_def convertDirect_def buildMicrosoftOfficeViewer_def
      buildDocsViewer_def appendTo_def isUnescaped_def isTrailingSurrogate_def
      isLeadingSurrogate_def)



text \<open>
  C7. When \<open>convertLink\<close> with type \<open>ppt\<close> returns a result with an export URL, the page
  with the viewer toggle on shows a result whose preview URL is
  \<open>buildMicrosoftOfficeViewer\<close> of that export URL and whose notes are the notes of the
  result followed by one more note; the export URL, the embed URL, the file identifier and
  the error are those of the result.
\<close>

theorem office_viewer_override:
  assumes "convertLink toLowerCase input Ppt = Inr r"
    and "exportUrl r = Some e"
  shows "\<exists>r' v ns. pageResult toLowerCase input Ppt True = Inr r' \<and>
           buildMicrosoftOfficeViewer e = Inr v \<and> previewUrl r' = Some v \<and>
           notes' r = Some ns \<and>
           notes' r' = Some (ns @ [js ''Microsoft viewer enabled for preview.'']) \<and>
           exportUrl r' = exportUrl r \<and> embedUrl r' = embedUrl r \<and>
           fileId r' = fileId r \<and> error r' = error r"
proof -
  have "e \<noteq> [] \<and> isWellFormed e \<and> (\<exists>ns. notes' r = Some ns)"
  proof (cases "trim input = []")
    case True
    with assms show ?thesis
      by (auto simp: convertLink_empty noResult_def)
  next
    case ne: False
    show ?thesis
    proof (cases "isProbablyGoogleLink toLowerCase input")
      case False
      with ne assms have d: "convertDirect (trim input) Ppt = Inr r"
        by (simp add: convertLink_direct)
      from convertDirect_result[OF d] assms(2) have e: "e = trim input" and
        v: "\<exists>v. buildMicrosoftOfficeViewer e = Inr v" and n: "\<exists>ns. notes' r = Some ns"
        by auto
      from v have "isWellFormed e"
        by (simp add: viewer_returns)
      with e ne n show ?thesis
        by simp
    next
      case g: True
      show ?thesis
      proof (cases "extractGoogleFileId input")
        case None
        with ne g assms show ?thesis
          by (auto simp: convertLink_noFileId noResult_def)
      next
        case (Some ident)
        with g assms have c: "convertGoogle toLowerCase (trim input) ident Ppt = Inr r"
          by (simp add: convertLink_google)
        from convertGoogle_result[OF c] assms(2) have e: "e = buildSlidesExportPptx ident"
          and n: "\<exists>ns. notes' r = Some ns"
          by auto
        have "list_all isIdChar ident"
          using Some by (simp add: extract_group)
        then have "isWellFormed e"
          unfolding e by (rule google_urls_wellFormed)
        moreover have "e \<noteq> []"
          by (simp add: e buildSlidesExportPptx_def js_def)
        ultimately show ?thesis
          using n by simp
      qed
    qed
  qed
  then obtain v ns where ne: "e \<noteq> []" and v: "buildMicrosoftOfficeViewer e = Inr v"
    and ns: "notes' r = Some ns"
    using viewer_returns(2)[of e] by blast
  have "pageResult toLowerCase input Ppt True =
          Inr (r\<lparr>previewUrl := Some v,
                 notes' := Some (ns @ [js ''Microsoft viewer enabled for preview.''])\<rparr>)"
    by (simp add: pageResult_def assms ne v ns)
  then show ?thesis
    using v ns by simp
qed

theorem office_viewer_override_witness:
  "\<exists>r. convertLink asciiLower (js ''https://docs.google.com/presentation/d/abc/edit'') Ppt = Inr r \<and>
       exportUrl r = Some (js ''https://docs.google.com/presentation/d/abc/export/pptx'') \<and>
       (\<exists>r'. pageResult asciiLower (js ''https://docs.google.com/presentation/d/abc/edit'') Ppt True =
               Inr r' \<and>
             previewUrl r' =
               Some (js ''https://view.officeapps.live.com/op/embed.aspx?src=https%3A%2F%2Fdocs.google.com%2Fpresentation%2Fd%2Fabc%2Fexport%2Fpptx'') \<and>
             exportUrl r' = exportUrl r \<and> embedUrl r' = embedUrl r)"
proof -
  let ?u = "js ''https://docs.google.com/presentation/d/abc/edit''"
  let ?e = "js ''https://docs.google.com/presentation/d/abc/export/pptx''"
  have g: "isProbablyGoogleLink asciiLower ?u"
    by (simp add: evalStrings)
  have x: "extractGoogleFileId ?u = Some (js ''abc'')"
    by (simp add: evalStrings)
  have j: "buildSlidesExportPptx (js ''abc'') = ?e"
    by (simp add: buildSlidesExportPptx_def js_def)
  obtain r where r: "convertLink asciiLower ?u Ppt = Inr r"
    and "exportUrl r = Some (buildSlidesExportPptx (js ''abc''))"
    by (simp add: convertLink_google[OF g x] noResult_def Let_def)
  then have e: "exportUrl r = Some ?e"
    by (simp only: j)
  have v: "buildMicrosoftOfficeViewer ?e =
             Inr (js ''https://view.officeapps.live.com/op/embed.aspx?src=https%3A%2F%2Fdocs.google.com%2Fpresentation%2Fd%2Fabc%2Fexport%2Fpptx'')"
    by (simp add: evalEncode js_def)
  from office_viewer_override[OF r e] v r e show ?thesis
    by auto
qed

text \<open>
  C8. For every well-formed string \<open>u\<close> (no unpaired surrogate code unit) both viewer
  builders return, and percent-decoding the \<^verbatim>\<open>url=\<close> parameter of \<open>buildDocsViewer u\<close>
  and the \<^verbatim>\<open>src=\<close> parameter of \<open>buildMicrosoftOfficeViewer u\<close> gives \<open>u\<close> back.
\<close>

theorem viewer_url_roundtrip:
  assumes "isWellFormed u"
  shows "\<exists>v w. buildDocsViewer u = Inr v \<and> queryParam (js ''url'') v = Some u \<and>
               buildMicrosoftOfficeViewer u = Inr w \<and> queryParam (js ''src'') w = Some u"
proof -
  from assms obtain e where e: "encodeURIComponent u = Inr e"
    using encode_wellFormed[of u] by blast
  have d: "decodeURIComponent e = Some u"
    using e by (rule decodeURIComponent_encode)
  have s: "list_all isEncoded e"
    using e by (rule encode_encoded)
  have "buildDocsViewer u = Inr (js ''https://docs.google.com/gview?embedded=true&url='' @ e)"
    and "buildMicrosoftOfficeViewer u =
           Inr (js ''https://view.officeapps.live.com/op/embed.aspx?src='' @ e)"
    by (simp_all add: buildDocsViewer_def buildMicrosoftOfficeViewer_def appendTo_def e)
  moreover have "queryParam (js ''url'') (js ''https://docs.google.com/gview?embedded=true&url='' @ e) = Some u"
    and "queryParam (js ''src'') (js ''https://view.officeapps.live.com/op/embed.aspx?src='' @ e) = Some u"
    by (simp_all only: queryParam_def rawParam_url[OF s] rawParam_src[OF s] option.case d)
  ultimately show ?thesis
    by blast
qed

theorem viewer_url_roundtrip_witness:
  "isWellFormed ([0xD83D, 0xDE00] @ js ''a b&c'') \<and>
   buildDocsViewer ([0xD83D, 0xDE00] @ js ''a b&c'') =
     Inr (js ''https://docs.google.com/gview?embedded=true&url=%F0%9F%98%80a%20b%26c'') \<and>
   queryParam (js ''url'') (js ''https://docs.google.com/gview?embedded=true&url=%F0%9F%98%80a%20b%26c'') =
     Some ([0xD83D, 0xDE00] @ js ''a b&c'') \<and>
   buildMicrosoftOfficeViewer ([0xD83D, 0xDE00] @ js ''a b&c'') =
     Inr (js ''https://view.officeapps.live.com/op/embed.aspx?src=%F0%9F%98%80a%20b%26c'') \<and>
   queryParam (js ''src'') (js ''https://view.officeapps.live.com/op/embed.aspx?src=%F0%9F%98%80a%20b%26c'') =
     Some ([0xD83D, 0xDE00] @ js ''a b&c'')"
proof -
  let ?u = "[0xD83D, 0xDE00] @ js ''a b&c''"
  have w: "isWellFormed ?u"
    by (simp add: js_def isTrailingSurrogate_def isLeadingSurrogate_def)
  have d: "buildDocsViewer ?u =
     Inr (js ''https://docs.google.com/gview?embedded=true&url=%F0%9F%98%80a%20b%26c'')"
    by (simp add: evalEncode js_def)
  have m: "buildMicrosoftOfficeViewer ?u =
     Inr (js ''https://view.officeapps.live.com/op/embed.aspx?src=%F0%9F%98%80a%20b%26c'')"
    by (simp add: evalEncode js_def)
  from viewer_url_roundtrip[OF w] w show ?thesis
    unfolding d m by simp
qed

text \<open>
  The URL of the office viewer carries the file URL in \<^verbatim>\<open>src=\<close>; it has no \<^verbatim>\<open>url=\<close>
  parameter to decode.
\<close>

theorem office_viewer_has_no_url_parameter:
  "buildMicrosoftOfficeViewer (js ''a'') =
     Inr (js ''https://view.officeapps.live.com/op/embed.aspx?src=a'') \<and>
   queryParam (js ''url'') (js ''https://view.officeapps.live.com/op/embed.aspx?src=a'') = None"
  by (simp add: evalEncode js_def queryParam_def rawParam_def queryOf_def)

text \<open>
  C9. The extractor over all six patterns and the extractor without the sixth pattern
  \<^verbatim>\<open>/uc?id=\<close> return the same result on every input: whenever \<^verbatim>\<open>/uc?id=\<close> matches a
  string, \<^verbatim>\<open>[?&]id=\<close>, which is tried before it, matches that string too.
\<close>

theorem uc_pattern_redundant:
  "extractGoogleFileId input = extractWithoutUc input \<and>
   (regexMatch (lit ''/uc?id='') s \<noteq> None \<longrightarrow> regexMatch (js ''?&'' # lit ''id='') s \<noteq> None)"
proof -
  let ?five = "[lit ''/file/d/'', lit ''/presentation/d/'', lit ''/document/d/'',
                lit ''/spreadsheets/d/'', js ''?&'' # lit ''id='']"
  let ?url = "trim input"
  have p: "patterns = ?five @ [lit ''/uc?id='']" and b: "butlast patterns = ?five"
    by (simp_all add: patterns_def)
  have "firstGroup patterns ?url = firstGroup ?five ?url"
  proof (cases "firstGroup ?five ?url")
    case (Some g)
    then show ?thesis
      unfolding p firstGroup_append by simp
  next
    case None
    then have "regexMatch (js ''?&'' # lit ''id='') ?url = None"
      by (rule firstGroup_None_mem) simp
    with uc_subsumed[of ?url] have "regexMatch (lit ''/uc?id='') ?url = None"
      by blast
    with None show ?thesis
      unfolding p firstGroup_append by simp
  qed
  then have "extractGoogleFileId input = extractWithoutUc input"
    unfolding extractGoogleFileId_def extractWithoutUc_def b Let_def by (simp only:)
  then show ?thesis
    using uc_subsumed[of s] by blast
qed

theorem uc_pattern_redundant_witness:
  "regexMatch (lit ''/uc?id='') (js ''https://drive.google.com/uc?id=abc&export=download'') \<noteq> None \<and>
   regexMatch (js ''?&'' # lit ''id='') (js ''https://drive.google.com/uc?id=abc&export=download'') \<noteq> None \<and>
   extractGoogleFileId (js ''https://drive.google.com/uc?id=abc&export=download'') =
     extractWithoutUc (js ''https://drive.google.com/uc?id=abc&export=download'')"
proof -
  let ?s = "js ''https://drive.google.com/uc?id=abc&export=download''"
  have h: "regexMatch (lit ''/uc?id='') ?s \<noteq> None"
    by (simp add: evalStrings)
  from uc_pattern_redundant[of ?s ?s] h show ?thesis
    by blast
qed

text \<open>
  C10. The test for a Google link ignores case and the extraction of the identifier does
  not: the input \<^verbatim>\<open>https://DOCS.GOOGLE.COM/PRESENTATION/D/abc123/edit\<close> is classified as
  a Google link, no identifier is extracted from it, and \<open>convertLink\<close> returns the
  malformed-Google-link error for every type.
\<close>

theorem uppercased_path_is_malformed:
  assumes "lowersAscii toLowerCase"
  shows "isProbablyGoogleLink toLowerCase
           (js ''https://DOCS.GOOGLE.COM/PRESENTATION/D/abc123/edit'') \<and>
         extractGoogleFileId (js ''https://DOCS.GOOGLE.COM/PRESENTATION/D/abc123/edit'') = None \<and>
         (\<forall>type. convertLink toLowerCase
                   (js ''https://DOCS.GOOGLE.COM/PRESENTATION/D/abc123/edit'') type =
                 Inr (noResult\<lparr>error := Some noFileId\<rparr>))"
proof -
  let ?u = "js ''https://DOCS.GOOGLE.COM/PRESENTATION/D/abc123/edit''"
  have t: "trim ?u = ?u"
    by (simp add: js_def trim_def isWhiteSpace_def)
  have a: "list_all isAscii ?u"
    by (simp add: js_def isAscii_def)
  then have l: "toLowerCase ?u = asciiLower ?u"
    using assms by (simp add: lowersAscii_def)
  have g: "isProbablyGoogleLink toLowerCase ?u"
    unfolding isProbablyGoogleLink_def t l
    by (simp add: js_def asciiLower_def asciiLowerUnit_def)
  have x: "extractGoogleFileId ?u = None"
    by (simp add: evalStrings)
  have ne: "trim ?u \<noteq> []"
    unfolding t by (simp add: js_def)
  show ?thesis
    using g x convertLink_noFileId[OF ne g x] by simp
qed

theorem uppercased_path_is_malformed_witness:
  "lowersAscii asciiLower \<and>
   isProbablyGoogleLink asciiLower (js ''https://DOCS.GOOGLE.COM/PRESENTATION/D/abc123/edit'') \<and>
   extractGoogleFileId (js ''https://DOCS.GOOGLE.COM/PRESENTATION/D/abc123/edit'') = None \<and>
   convertLink asciiLower (js ''https://DOCS.GOOGLE.COM/PRESENTATION/D/abc123/edit'') Image =
     Inr (noResult\<lparr>error := Some noFileId\<rparr>)"
  using uppercased_path_is_malformed[OF lowersAscii_asciiLower] lowersAscii_asciiLower by simp

end
